theory Spec2Isabelle
  imports Complex_Main
begin

unbundle bit_operations_syntax

section \<open>Pauli words and Pauli sentences\<close>

text \<open>
  The conversion code imports \<^verbatim>\<open>PauliWord\<close>, \<^verbatim>\<open>PauliSentence\<close> and the label constants
  \<^verbatim>\<open>I, X, Y, Z\<close> from \<^verbatim>\<open>pauli_arithmetic\<close>. The labels are the one-character strings
  "I", "X", "Y", "Z"; they are modelled as characters. Wires are natural numbers.
  A Pauli word is a dictionary from wires to labels; it is kept as an association list
  sorted by wire without identity entries, so that list equality is dictionary equality.
  A Pauli sentence is a dictionary from words to coefficients, kept in insertion order.
\<close>

type_synonym wire = nat
type_synonym pauli_word = "(wire \<times> char) list"
type_synonym pauli_sentence = "(pauli_word \<times> complex) list"

fun pw_insert :: "wire \<Rightarrow> char \<Rightarrow> pauli_word \<Rightarrow> pauli_word" where
  "pw_insert w p [] = [(w, p)]"
| "pw_insert w p ((v, q) # rest) =
     (if w < v then (w, p) # (v, q) # rest
      else if w = v then (w, p) # rest
      else (v, q) # pw_insert w p rest)"

text \<open>Modelled from the spec: the constructor \<^verbatim>\<open>PauliWord(mapping)\<close> of
  \<^verbatim>\<open>pauli_arithmetic\<close>; wires mapped to the identity label are not stored, a wire
  given twice keeps its last label.\<close>

definition PauliWord :: "(wire \<times> char) list \<Rightarrow> pauli_word" where
  "PauliWord kvs =
     filter (\<lambda>(w, p). p \<noteq> CHR ''I'') (foldl (\<lambda>acc (w, p). pw_insert w p acc) [] kvs)"

text \<open>Modelled from the spec: the single-qubit Pauli multiplication table
  (\<open>X Y = i Z\<close>, \<open>Y Z = i X\<close>, \<open>Z X = i Y\<close>, the reversed products with phase \<open>-i\<close>).\<close>

definition pauli_mul :: "char \<Rightarrow> char \<Rightarrow> char \<times> complex" where
  "pauli_mul p q =
     (if p = CHR ''I'' then (q, 1)
      else if q = CHR ''I'' then (p, 1)
      else if p = q then (CHR ''I'', 1)
      else if p = CHR ''X'' \<and> q = CHR ''Y'' then (CHR ''Z'', \<i>)
      else if p = CHR ''Y'' \<and> q = CHR ''Z'' then (CHR ''X'', \<i>)
      else if p = CHR ''Z'' \<and> q = CHR ''X'' then (CHR ''Y'', \<i>)
      else if p = CHR ''Y'' \<and> q = CHR ''X'' then (CHR ''Z'', - \<i>)
      else if p = CHR ''Z'' \<and> q = CHR ''Y'' then (CHR ''X'', - \<i>)
      else (CHR ''Y'', - \<i>))"

text \<open>Modelled from the spec: \<^verbatim>\<open>multiply(word_a, word_b) -> (word_result, phase)\<close>;
  wires in one operand only pass through with phase 1.\<close>

fun pw_mul :: "pauli_word \<Rightarrow> pauli_word \<Rightarrow> pauli_word \<times> complex" where
  "pw_mul [] b = (b, 1)"
| "pw_mul (x # a) [] = (x # a, 1)"
| "pw_mul ((w, p) # a) ((v, q) # b) =
     (if w < v then (case pw_mul a ((v, q) # b) of (r, ph) \<Rightarrow> ((w, p) # r, ph))
      else if v < w then (case pw_mul ((w, p) # a) b of (r, ph) \<Rightarrow> ((v, q) # r, ph))
      else (case pauli_mul p q of (c, ph1) \<Rightarrow>
              (case pw_mul a b of (r, ph) \<Rightarrow>
                 (if c = CHR ''I'' then r else (w, c) # r, ph1 * ph))))"

fun ps_accumulate :: "pauli_word \<Rightarrow> complex \<Rightarrow> pauli_sentence \<Rightarrow> pauli_sentence" where
  "ps_accumulate w c [] = [(w, c)]"
| "ps_accumulate w c ((v, d) # rest) =
     (if v = w then (v, d + c) # rest else (v, d) # ps_accumulate w c rest)"

text \<open>Modelled from the spec: \<^verbatim>\<open>sentence_add\<close> merges key-wise and sums the coefficients
  of identical words; \<^verbatim>\<open>sentence_multiply\<close> multiplies every pair of words and accumulates
  coefficient times phase under the resulting word.\<close>

definition ps_add :: "pauli_sentence \<Rightarrow> pauli_sentence \<Rightarrow> pauli_sentence" where
  "ps_add a b = foldl (\<lambda>acc (w, c). ps_accumulate w c acc) a b"

definition ps_mul :: "pauli_sentence \<Rightarrow> pauli_sentence \<Rightarrow> pauli_sentence" where
  "ps_mul a b =
     foldl (\<lambda>acc ((wa, ca), (wb, cb)).
              (case pw_mul wa wb of (w, ph) \<Rightarrow> ps_accumulate w (ph * ca * cb) acc))
       [] (List.product a b)"

section \<open>Operators\<close>

text \<open>
  An operator object carries the attribute \<^verbatim>\<open>_pauli_rep\<close> (a cached Pauli sentence or
  \<^verbatim>\<open>None\<close>) and is of one of the classes the conversion dispatches on; every other
  class is \<open>OtherOp\<close> with its name and wires.
\<close>

datatype operator = Operator (pauli_rep: "pauli_sentence option") (kind: op_kind)
and op_kind =
    PauliX wire
  | PauliY wire
  | PauliZ wire
  | Identity wire
  | Tensor "operator list"
  | Prod "operator list"
  | SProd complex operator
  | Hamiltonian "complex list" "operator list"
  | Sum "operator list"
  | OtherOp string "wire list"

datatype error =
    NotPauliCombination operator
  | MatrixNotSquare "nat \<times> nat"
  | DimensionNotPowerOf2 "nat \<times> nat"
  | WireCountMismatch nat nat
  | ReduceOfEmpty
  | OverflowError
  | NotImplementedError
  | AttributeError
  | DimensionMismatch

text \<open>Modelled from the spec: \<^verbatim>\<open>is_pauli_word\<close> of \<^verbatim>\<open>pauli.utils\<close>: a single-qubit Pauli
  or identity, or a tensor product whose factors are all of these.\<close>

definition is_pauli_atom :: "operator \<Rightarrow> bool" where
  "is_pauli_atom op =
     (case kind op of PauliX _ \<Rightarrow> True | PauliY _ \<Rightarrow> True | PauliZ _ \<Rightarrow> True
      | Identity _ \<Rightarrow> True | _ \<Rightarrow> False)"

definition is_pauli_word :: "operator \<Rightarrow> bool" where
  "is_pauli_word op =
     (case kind op of Tensor obs \<Rightarrow> list_all is_pauli_atom obs | _ \<Rightarrow> is_pauli_atom op)"

text \<open>\<^verbatim>\<open>functools.reduce(f, iterable)\<close> without initial value over an iterable whose
  items are computed on demand and may raise: the first exception in iteration order
  stops the fold; an empty iterable raises \<^verbatim>\<open>TypeError\<close>.\<close>

fun reduce_from :: "('a \<Rightarrow> 'a \<Rightarrow> 'a) \<Rightarrow> 'a \<Rightarrow> (error + 'a) list \<Rightarrow> error + 'a" where
  "reduce_from f a [] = Inr a"
| "reduce_from f a (Inl e # rs) = Inl e"
| "reduce_from f a (Inr b # rs) = reduce_from f (f a b) rs"

fun reduce :: "('a \<Rightarrow> 'a \<Rightarrow> 'a) \<Rightarrow> (error + 'a) list \<Rightarrow> error + 'a" where
  "reduce f [] = Inl ReduceOfEmpty"
| "reduce f (Inl e # rs) = Inl e"
| "reduce f (Inr a # rs) = reduce_from f a rs"

text \<open>The loop \<^verbatim>\<open>for pw, coeff in ps.items(): ps[pw] = coeff * s\<close>.\<close>

definition scale_right :: "complex \<Rightarrow> pauli_sentence \<Rightarrow> pauli_sentence" where
  "scale_right s ps = map (\<lambda>(pw, coeff). (pw, coeff * s)) ps"

text \<open>The loop \<^verbatim>\<open>for pw, sub_coeff in ps.items(): ps[pw] = coeff * sub_coeff\<close>.\<close>

definition scale_left :: "complex \<Rightarrow> pauli_sentence \<Rightarrow> pauli_sentence" where
  "scale_left coeff ps = map (\<lambda>(pw, sub_coeff). (pw, coeff * sub_coeff)) ps"

text \<open>The summands of the \<^verbatim>\<open>Hamiltonian\<close> case: \<^verbatim>\<open>zip(*op.terms())\<close> pairs coefficients
  with terms, each term is converted and scaled, in order.\<close>

fun ham_summands :: "(complex \<times> (error + pauli_sentence)) list \<Rightarrow> error + pauli_sentence list" where
  "ham_summands [] = Inr []"
| "ham_summands ((coeff, Inl e) # rest) = Inl e"
| "ham_summands ((coeff, Inr ps) # rest) =
     (case ham_summands rest of Inl e \<Rightarrow> Inl e | Inr sm \<Rightarrow> Inr (scale_left coeff ps # sm))"

text \<open>The single-dispatch function \<^verbatim>\<open>_pauli_sentence\<close> (conversion.py, lines 198-265).\<close>

fun pauli_sentence_dispatch :: "operator \<Rightarrow> error + pauli_sentence" where
  "pauli_sentence_dispatch (Operator c k) =
     (case k of
        PauliX w \<Rightarrow> Inr [(PauliWord [(w, CHR ''X'')], 1)]
      | PauliY w \<Rightarrow> Inr [(PauliWord [(w, CHR ''Y'')], 1)]
      | PauliZ w \<Rightarrow> Inr [(PauliWord [(w, CHR ''Z'')], 1)]
      | Identity w \<Rightarrow> Inr [(PauliWord [], 1)]
      | Tensor obs \<Rightarrow>
          (if \<not> is_pauli_word (Operator c k) then Inl (NotPauliCombination (Operator c k))
           else reduce ps_mul (map pauli_sentence_dispatch obs))
      | Prod factors \<Rightarrow> reduce ps_mul (map pauli_sentence_dispatch factors)
      | SProd scalar base \<Rightarrow>
          (case pauli_sentence_dispatch base of
             Inl e \<Rightarrow> Inl e
           | Inr ps \<Rightarrow> Inr (scale_right scalar ps))
      | Hamiltonian coeffs ops \<Rightarrow>
          (if \<not> list_all is_pauli_word ops then Inl (NotPauliCombination (Operator c k))
           else (case ham_summands (zip coeffs (map pauli_sentence_dispatch ops)) of
                   Inl e \<Rightarrow> Inl e
                 | Inr summands \<Rightarrow>
                     (if length summands > 0 then reduce ps_add (map Inr summands)
                      else Inr [])))
      | Sum summands \<Rightarrow> reduce ps_add (map pauli_sentence_dispatch summands)
      | OtherOp name ws \<Rightarrow> Inl (NotPauliCombination (Operator c k)))"

text \<open>\<^verbatim>\<open>pauli_sentence\<close> (conversion.py, lines 180-195).\<close>

definition pauli_sentence :: "operator \<Rightarrow> error + pauli_sentence" where
  "pauli_sentence op =
     (case pauli_rep op of Some ps \<Rightarrow> Inr ps | None \<Rightarrow> pauli_sentence_dispatch op)"




fun sub_operators :: "operator \<Rightarrow> operator list" where
  "sub_operators (Operator c k) =
     Operator c k #
     (case k of
        Tensor obs \<Rightarrow> concat (map sub_operators obs)
      | Prod factors \<Rightarrow> concat (map sub_operators factors)
      | SProd scalar base \<Rightarrow> sub_operators base
      | Hamiltonian coeffs ops \<Rightarrow> concat (map sub_operators ops)
      | Sum summands \<Rightarrow> concat (map sub_operators summands)
      | _ \<Rightarrow> [])"

section \<open>Measuring a state\<close>

text \<open>
  The measurement engine (devices/qubit/measure.py) reads a state tensor through its
  shape and its flattened entries, an observable through its name and its
  \<^verbatim>\<open>sparse_matrix\<close> capability, and a measurement process through its class, its
  observable (possibly \<^verbatim>\<open>None\<close>), its diagonalizing gates and its \<^verbatim>\<open>process_state\<close>
  reduction. Matrices are given by their shape and their entries.
\<close>

record matrix =
  nrows :: nat
  ncols :: nat
  entry :: "nat \<Rightarrow> nat \<Rightarrow> complex"

record tensor =
  shape :: "nat list"
  flat :: "complex list"

datatype tensor_like = Scalar complex | Array "complex list"

text \<open>The attribute \<^verbatim>\<open>name\<close> of an operator is a string; a tensor product reports the
  list of its factors' names.\<close>

datatype op_name = Name string | Names "string list"

record observable =
  obs_name :: op_name
  sparse_matrix :: "nat list \<Rightarrow> error + matrix"

text \<open>Modelled from the spec: the classes of \<^verbatim>\<open>pennylane.measurements\<close> as far as the
  dispatch tells them apart; an expectation value is a state measurement.\<close>

datatype mp_class = ExpectationMP | OtherStateMeasurement | NotStateMeasurement

definition isinstance_StateMeasurement :: "mp_class \<Rightarrow> bool" where
  "isinstance_StateMeasurement cls = (cls \<noteq> NotStateMeasurement)"

definition isinstance_ExpectationMP :: "mp_class \<Rightarrow> bool" where
  "isinstance_ExpectationMP cls = (cls = ExpectationMP)"

record measurement_process =
  mp_class :: mp_class
  obs :: "observable option"
  diagonalizing_gates :: "operator list"
  process_state :: "complex list \<Rightarrow> nat list \<Rightarrow> tensor_like"

text \<open>\<^verbatim>\<open>state_diagonalizing_gates\<close> (measure.py, lines 29-46); \<^verbatim>\<open>apply_operation\<close> is the
  state-evolution primitive of the neighbouring module, taken as a parameter.\<close>

definition state_diagonalizing_gates ::
  "(operator \<Rightarrow> tensor \<Rightarrow> tensor) \<Rightarrow> measurement_process \<Rightarrow> tensor \<Rightarrow> error + tensor_like" where
  "state_diagonalizing_gates apply_operation measurementprocess state =
     (let state' = foldl (\<lambda>st op. apply_operation op st) state
                     (diagonalizing_gates measurementprocess);
          total_indices = length (shape state');
          wires = [0..<total_indices]
      in Inr (process_state measurementprocess (flat state') wires))"

text \<open>\<^verbatim>\<open>csr_matrix.dot\<close>: the product of two matrices, a dimension mismatch raises.\<close>

definition csr_dot :: "matrix \<Rightarrow> matrix \<Rightarrow> error + matrix" where
  "csr_dot A B =
     (if ncols A \<noteq> nrows B then Inl DimensionMismatch
      else Inr \<lparr>nrows = nrows A, ncols = ncols B,
                entry = (\<lambda>i j. \<Sum>k<ncols A. entry A i k * entry B k j)\<rparr>)"

text \<open>\<^verbatim>\<open>state_hamiltonian_expval\<close> (measure.py, lines 49-72).\<close>

definition state_hamiltonian_expval :: "measurement_process \<Rightarrow> tensor \<Rightarrow> error + tensor_like" where
  "state_hamiltonian_expval measurementprocess state =
     (let total_wires = length (shape state) in
      case obs measurementprocess of
        None \<Rightarrow> Inl AttributeError
      | Some ob \<Rightarrow>
          (case sparse_matrix ob [0..<total_wires] of
             Inl e \<Rightarrow> Inl e
           | Inr Hmat \<Rightarrow>
               (let state_vec = flat state;
                    bra = \<lparr>nrows = 1, ncols = length state_vec,
                           entry = (\<lambda>i j. cnj (state_vec ! j))\<rparr>;
                    ket = \<lparr>nrows = length state_vec, ncols = 1,
                           entry = (\<lambda>i j. state_vec ! i)\<rparr>
                in case csr_dot Hmat ket of
                     Inl e \<Rightarrow> Inl e
                   | Inr new_ket \<Rightarrow>
                       (case csr_dot bra new_ket of
                          Inl e \<Rightarrow> Inl e
                        | Inr res \<Rightarrow> Inr (Scalar (complex_of_real (Re (entry res 0 0))))))))"

datatype measurement_function = StateHamiltonianExpval | StateDiagonalizingGates

definition name_in_hamiltonians :: "op_name \<Rightarrow> bool" where
  "name_in_hamiltonians n = (n = Name ''Hamiltonian'' \<or> n = Name ''SparseHamiltonian'')"

text \<open>\<^verbatim>\<open>get_measurement_function\<close> (measure.py, lines 75-96). Reading \<^verbatim>\<open>.name\<close> of an
  observable that is \<^verbatim>\<open>None\<close> raises \<^verbatim>\<open>AttributeError\<close>.\<close>

definition get_measurement_function :: "measurement_process \<Rightarrow> error + measurement_function" where
  "get_measurement_function measurementprocess =
     (if isinstance_StateMeasurement (mp_class measurementprocess) then
        (if isinstance_ExpectationMP (mp_class measurementprocess) then
           (case obs measurementprocess of
              None \<Rightarrow> Inl AttributeError
            | Some ob \<Rightarrow>
                (if name_in_hamiltonians (obs_name ob) then Inr StateHamiltonianExpval
                 else Inr StateDiagonalizingGates))
         else Inr StateDiagonalizingGates)
      else Inl NotImplementedError)"

definition call_measurement_function ::
  "(operator \<Rightarrow> tensor \<Rightarrow> tensor) \<Rightarrow> measurement_function \<Rightarrow> measurement_process \<Rightarrow> tensor
     \<Rightarrow> error + tensor_like" where
  "call_measurement_function apply_operation f measurementprocess state =
     (case f of
        StateHamiltonianExpval \<Rightarrow> state_hamiltonian_expval measurementprocess state
      | StateDiagonalizingGates \<Rightarrow>
          state_diagonalizing_gates apply_operation measurementprocess state)"

text \<open>\<^verbatim>\<open>measure\<close> (measure.py, lines 99-109).\<close>

definition measure ::
  "(operator \<Rightarrow> tensor \<Rightarrow> tensor) \<Rightarrow> measurement_process \<Rightarrow> tensor \<Rightarrow> error + tensor_like" where
  "measure apply_operation measurementprocess state =
     (case get_measurement_function measurementprocess of
        Inl e \<Rightarrow> Inl e
      | Inr f \<Rightarrow> call_measurement_function apply_operation f measurementprocess state)"

text \<open>The dispatch rule in the words of the specification: not a state measurement, not
  implemented; else an expectation value whose observable's name is in the Hamiltonian
  family, the sparse strategy; else the diagonalizing-gate strategy.\<close>

definition dispatch_rule ::
  "(operator \<Rightarrow> tensor \<Rightarrow> tensor) \<Rightarrow> measurement_process \<Rightarrow> tensor \<Rightarrow> error + tensor_like" where
  "dispatch_rule apply_operation mp state =
     (if \<not> isinstance_StateMeasurement (mp_class mp) then Inl NotImplementedError
      else if isinstance_ExpectationMP (mp_class mp)
              \<and> (\<exists>ob. obs mp = Some ob \<and> name_in_hamiltonians (obs_name ob))
           then state_hamiltonian_expval mp state
      else state_diagonalizing_gates apply_operation mp state)"

text \<open>The contraction \<open>conj(state) . H . state\<close>.\<close>

definition expval_contraction :: "matrix \<Rightarrow> complex list \<Rightarrow> complex" where
  "expval_contraction H psi =
     (\<Sum>i<length psi. cnj (psi ! i) * (\<Sum>j<length psi. entry H i j * psi ! j))"

section \<open>Decomposing a matrix into Pauli terms\<close>

text \<open>
  \<^verbatim>\<open>pauli_decompose\<close> (conversion.py, lines 31-177). The matrix is a two-dimensional
  array of complex dtype (with a real dtype the in-place multiplication by \<^verbatim>\<open>1j\<close> on
  line 148 raises); its entries are complex numbers with exact arithmetic, read through
  the shape and an entry function that is looked at inside the shape only.
  \<^verbatim>\<open>int(log2(k))\<close> is the integer logarithm for \<open>k > 0\<close> (the floating-point logarithm
  is exact on powers of two, and for every other \<open>k\<close> the comparison with
  \<^verbatim>\<open>2**num_qubits\<close> fails whatever the rounding); for \<open>k = 0\<close> the logarithm is
  \<open>-inf\<close> and \<^verbatim>\<open>int\<close> raises \<^verbatim>\<open>OverflowError\<close>.
\<close>

fun floor_log2 :: "nat \<Rightarrow> nat" where
  "floor_log2 k = (if k < 2 then 0 else Suc (floor_log2 (k div 2)))"

declare floor_log2.simps [simp del]

definition int_log2 :: "nat \<Rightarrow> error + nat" where
  "int_log2 k = (if k = 0 then Inl OverflowError else Inr (floor_log2 k))"

definition int_ceil_log2 :: "nat \<Rightarrow> error + nat" where
  "int_ceil_log2 k =
     (if k = 0 then Inl OverflowError
      else Inr (if k = 1 then 0 else Suc (floor_log2 (k - 1))))"

text \<open>\<^verbatim>\<open>pad(matrix, ((0, d0), (0, d1)), mode="constant", constant_values=0)\<close>.\<close>

definition pad_constant :: "matrix \<Rightarrow> nat \<Rightarrow> nat \<Rightarrow> matrix" where
  "pad_constant m d0 d1 =
     \<lparr>nrows = nrows m + d0, ncols = ncols m + d1,
      entry = (\<lambda>r c. if r < nrows m \<and> c < ncols m then entry m r c else 0)\<rparr>"

text \<open>Lines 104-110: pad with zeros to a square of power-of-two side.\<close>

definition pad_to_power_of_two :: "matrix \<Rightarrow> error + matrix" where
  "pad_to_power_of_two m =
     (case int_ceil_log2 (max (nrows m) (ncols m)) of
        Inl e \<Rightarrow> Inl e
      | Inr num_qubits \<Rightarrow>
          (if nrows m \<noteq> ncols m \<or> nrows m \<noteq> 2 ^ num_qubits then
             Inr (pad_constant m (nat \<bar>int (nrows m) - 2 ^ num_qubits\<bar>)
                    (nat \<bar>int (ncols m) - 2 ^ num_qubits\<bar>))
           else Inr m))"

text \<open>Lines 131-133: the list \<^verbatim>\<open>indices\<close>; its element \<open>idx\<close> is built from the element
  before it by XOR with \<^verbatim>\<open>(idx + 1) ^ idx\<close>.\<close>

fun xor_indices :: "nat \<Rightarrow> nat \<Rightarrow> nat list" where
  "xor_indices side 0 = [0..<side]"
| "xor_indices side (Suc idx) = map (\<lambda>j. j XOR ((idx + 1) XOR idx)) (xor_indices side idx)"

text \<open>Line 134: row \<open>idx\<close> of \<^verbatim>\<open>term_mat\<close> is row \<open>idx\<close> of the matrix, its columns
  taken in the order \<^verbatim>\<open>indices[idx]\<close>.\<close>

definition permute_by_xor :: "nat \<Rightarrow> (nat \<Rightarrow> nat \<Rightarrow> complex) \<Rightarrow> nat \<Rightarrow> nat \<Rightarrow> complex" where
  "permute_by_xor side m = (\<lambda>idx j. m idx (xor_indices side idx ! j))"

text \<open>Lines 140-148: one pass of the loop over the qubits. In the tensor of shape
  \<^verbatim>\<open>(2,) * (2 * num_qubits)\<close>, axis \<open>idx\<close> is bit \<open>num_qubits - 1 - idx\<close> of the row
  index and axis \<open>idx + num_qubits\<close> is the same bit of the column index. The slices
  \<open>a\<close> and \<open>b\<close> fix the row bit to 0 and 1; \<open>c\<close> fixes the row bit and the column bit
  to 1.\<close>

definition hadamard_step ::
  "nat \<Rightarrow> nat \<Rightarrow> (nat \<Rightarrow> nat \<Rightarrow> complex) \<Rightarrow> nat \<Rightarrow> nat \<Rightarrow> complex" where
  "hadamard_step num_qubits idx t =
     (\<lambda>r j. let p = num_qubits - 1 - idx in
        if \<not> bit r p then t r j + t (r + 2 ^ p) j
        else (t (r - 2 ^ p) j - t r j) * (if bit j p then \<i> else 1))"

definition hadamard_transform ::
  "nat \<Rightarrow> (nat \<Rightarrow> nat \<Rightarrow> complex) \<Rightarrow> nat \<Rightarrow> nat \<Rightarrow> complex" where
  "hadamard_transform num_qubits t = foldl (\<lambda>t idx. hadamard_step num_qubits idx t) t [0..<num_qubits]"

text \<open>Lines 131-150 together.\<close>

definition term_matrix :: "nat \<Rightarrow> matrix \<Rightarrow> nat \<Rightarrow> nat \<Rightarrow> complex" where
  "term_matrix num_qubits m =
     (\<lambda>r j. hadamard_transform num_qubits (permute_by_xor (nrows m) (entry m)) r j
             / of_nat (nrows m))"

text \<open>\<^verbatim>\<open>itertools.product(xs, repeat=n)\<close>: the last position varies fastest.\<close>

fun product_repeat :: "'a list \<Rightarrow> nat \<Rightarrow> 'a list list" where
  "product_repeat xs 0 = [[]]"
| "product_repeat xs (Suc n) = concat (map (\<lambda>x. map ((#) x) (product_repeat xs n)) xs)"

text \<open>\<^verbatim>\<open>int("".join(map(str, bits)), 2)\<close>: the bits are read most significant first.\<close>

definition int_base2 :: "nat list \<Rightarrow> nat" where
  "int_base2 bits = foldl (\<lambda>acc b. 2 * acc + b) 0 bits"

definition z_bits :: "string \<Rightarrow> nat list" where
  "z_bits p_rep = map (\<lambda>rep. if rep \<in> set ''YZ'' then 1 else 0) p_rep"

definition x_bits :: "string \<Rightarrow> nat list" where
  "x_bits p_rep = map (\<lambda>rep. if rep \<in> set ''XY'' then 1 else 0) p_rep"

text \<open>\<^verbatim>\<open>allclose(coefficient, 0)\<close> with the default tolerances: \<open>|c - 0| \<le> atol + rtol * |0|\<close>
  and \<open>atol = 1e-8\<close>.\<close>

definition atol :: real where
  "atol = 1 / 10 ^ 8"

definition allclose_zero :: "complex \<Rightarrow> bool" where
  "allclose_zero c = (cmod c \<le> atol)"

text \<open>Lines 162-166.\<close>

definition observables_of :: "bool \<Rightarrow> wire list \<Rightarrow> string \<Rightarrow> (char \<times> wire) list" where
  "observables_of hide_identity wire_order p_rep =
     (if hide_identity \<and> \<not> list_all (\<lambda>t. t = CHR ''I'') p_rep
      then [(ob, w). (w, ob) \<leftarrow> zip wire_order p_rep, ob \<noteq> CHR ''I'']
      else [(ob, w). (w, ob) \<leftarrow> zip wire_order p_rep])"

text \<open>Lines 154-169: the two parallel lists \<^verbatim>\<open>terms\<close>, kept as a list of pairs. For
  \<open>num_qubits = 0\<close> the index tuple is empty and \<^verbatim>\<open>coefficient\<close> is the whole 1x1 array,
  whose only entry is at row 0, column 0.\<close>

definition decomposition_terms ::
  "nat \<Rightarrow> (nat \<Rightarrow> nat \<Rightarrow> complex) \<Rightarrow> bool \<Rightarrow> wire list \<Rightarrow> (complex \<times> (char \<times> wire) list) list" where
  "decomposition_terms num_qubits term_mat hide_identity wire_order =
     [(term_mat (int_base2 (z_bits p_rep)) (int_base2 (x_bits p_rep)),
       observables_of hide_identity wire_order p_rep).
        p_rep \<leftarrow> product_repeat ''IXYZ'' num_qubits,
        \<not> allclose_zero (term_mat (int_base2 (z_bits p_rep)) (int_base2 (x_bits p_rep))),
        observables_of hide_identity wire_order p_rep \<noteq> []]"

text \<open>Modelled from the spec: the table \<^verbatim>\<open>op_map\<close> of \<^verbatim>\<open>pauli_arithmetic\<close> from labels to
  operator classes, and the tensor product \<^verbatim>\<open>@\<close> of observables, which collects the
  factors of both sides in one \<^verbatim>\<open>Tensor\<close>.\<close>

definition op_map :: "char \<Rightarrow> wire \<Rightarrow> operator" where
  "op_map ob w =
     Operator None
       (if ob = CHR ''I'' then Identity w
        else if ob = CHR ''X'' then PauliX w
        else if ob = CHR ''Y'' then PauliY w
        else PauliZ w)"

definition factors_of :: "operator \<Rightarrow> operator list" where
  "factors_of op = (case kind op of Tensor fs \<Rightarrow> fs | _ \<Rightarrow> [op])"

definition matmul :: "operator \<Rightarrow> operator \<Rightarrow> operator" where
  "matmul a b = Operator None (Tensor (factors_of a @ factors_of b))"

fun collect_results :: "(error + 'a) list \<Rightarrow> error + 'a list" where
  "collect_results [] = Inr []"
| "collect_results (Inl e # rs) = Inl e"
| "collect_results (Inr a # rs) =
     (case collect_results rs of Inl e \<Rightarrow> Inl e | Inr xs \<Rightarrow> Inr (a # xs))"

text \<open>A dictionary built by a comprehension: a key given again keeps its place and takes
  the new value.\<close>

fun ps_set :: "pauli_word \<Rightarrow> complex \<Rightarrow> pauli_sentence \<Rightarrow> pauli_sentence" where
  "ps_set w c [] = [(w, c)]"
| "ps_set w c ((v, d) # rest) =
     (if v = w then (v, c) # rest else (v, d) # ps_set w c rest)"

datatype decomposition =
    HamiltonianResult "complex list" "operator list"
  | PauliSentenceResult pauli_sentence

definition pauli_decompose ::
  "matrix \<Rightarrow> bool \<Rightarrow> wire list option \<Rightarrow> bool \<Rightarrow> bool \<Rightarrow> error + decomposition" where
  "pauli_decompose matrix hide_identity wire_order pauli padding =
     (case (if padding then pad_to_power_of_two matrix else Inr matrix) of
        Inl e \<Rightarrow> Inl e
      | Inr m \<Rightarrow>
          (if nrows m \<noteq> ncols m then Inl (MatrixNotSquare (nrows m, ncols m))
           else case int_log2 (nrows m) of
             Inl e \<Rightarrow> Inl e
           | Inr num_qubits \<Rightarrow>
               (if nrows m \<noteq> 2 ^ num_qubits then Inl (DimensionNotPowerOf2 (nrows m, ncols m))
                else if wire_order \<noteq> None \<and> length (the wire_order) \<noteq> num_qubits
                  then Inl (WireCountMismatch (length (the wire_order)) num_qubits)
                else
                  (let wires = (case wire_order of None \<Rightarrow> [0..<num_qubits] | Some ws \<Rightarrow> ws);
                       terms = decomposition_terms num_qubits (term_matrix num_qubits m)
                                 hide_identity wires
                   in if pauli then
                        Inr (PauliSentenceResult
                               (foldl (\<lambda>acc (coeff, obs_n_wires).
                                         ps_set (PauliWord (map (\<lambda>(ob, w). (w, ob)) obs_n_wires))
                                           coeff acc)
                                  [] terms))
                      else
                        (case collect_results
                                (map (\<lambda>(coeff, obs_term).
                                        reduce matmul (map (\<lambda>(ob, w). Inr (op_map ob w)) obs_term))
                                   terms) of
                           Inl e \<Rightarrow> Inl e
                         | Inr observables \<Rightarrow> Inr (HamiltonianResult (map fst terms) observables))))))"

text \<open>
  Re-expanding a decomposition: the sum over the terms of the coefficient times the
  Kronecker product of the term's Pauli factors, entry by entry. The first factor is the
  most significant one.
\<close>

definition pauli_entry :: "operator \<Rightarrow> nat \<Rightarrow> nat \<Rightarrow> complex" where
  "pauli_entry op a b =
     (case kind op of
        Identity w \<Rightarrow> (if a = b then 1 else 0)
      | PauliX w \<Rightarrow> (if a \<noteq> b then 1 else 0)
      | PauliY w \<Rightarrow> (if a = 0 \<and> b = 1 then - \<i> else if a = 1 \<and> b = 0 then \<i> else 0)
      | PauliZ w \<Rightarrow> (if a = b then (if a = 0 then 1 else - 1) else 0)
      | _ \<Rightarrow> 0)"

fun kron_entry :: "operator list \<Rightarrow> nat \<Rightarrow> nat \<Rightarrow> complex" where
  "kron_entry [] a b = (if a = 0 \<and> b = 0 then 1 else 0)"
| "kron_entry (f # fs) a b =
     pauli_entry f (a div 2 ^ length fs) (b div 2 ^ length fs)
     * kron_entry fs (a mod 2 ^ length fs) (b mod 2 ^ length fs)"

definition reexpand :: "complex list \<Rightarrow> operator list \<Rightarrow> nat \<Rightarrow> nat \<Rightarrow> complex" where
  "reexpand coeffs ops a b =
     sum_list (map (\<lambda>(coeff, op). coeff * kron_entry (factors_of op) a b) (zip coeffs ops))"

subsection \<open>Closed forms used in the proofs\<close>

text \<open>
  The sign \<open>(-1)\<close> to the number of bit positions below \<open>n\<close> set in both arguments,
  the same with \<open>i\<close> and with \<open>-i\<close> in place of \<open>-1\<close>, and one pass of the
  transform loop written with the bit position instead of the loop index.
\<close>

definition wsign :: "nat \<Rightarrow> nat \<Rightarrow> nat \<Rightarrow> complex" where
  "wsign n z s = (\<Prod>p<n. if bit z p \<and> bit s p then - 1 else 1)"

definition iphase :: "nat \<Rightarrow> nat \<Rightarrow> nat \<Rightarrow> complex" where
  "iphase n z x = (\<Prod>p<n. if bit z p \<and> bit x p then \<i> else 1)"

definition miphase :: "nat \<Rightarrow> nat \<Rightarrow> nat \<Rightarrow> complex" where
  "miphase n z x = (\<Prod>p<n. if bit z p \<and> bit x p then - \<i> else 1)"

definition bstep :: "nat \<Rightarrow> (nat \<Rightarrow> nat \<Rightarrow> complex) \<Rightarrow> nat \<Rightarrow> nat \<Rightarrow> complex" where
  "bstep p t = (\<lambda>r j. if \<not> bit r p then t r j + t (r + 2 ^ p) j
        else (t (r - 2 ^ p) j - t r j) * (if bit j p then \<i> else 1))"

section \<open>Properties of the operator conversion\<close>

lemma pauli_sentence_example:
  "pauli_sentence (Operator None (SProd 2 (Operator None (PauliX 0)))) = Inr [([(0, CHR ''X'')], 2)]"
  by (simp add: pauli_sentence_def PauliWord_def scale_right_def)



lemma sub_operators_self: "op \<in> set (sub_operators op)"
  by (cases op) simp



text \<open>
  Claim C7. When the operator's cached Pauli sentence is present, \<^verbatim>\<open>pauli_sentence\<close>
  returns that cached sentence; the operator's class is not looked at and nothing is
  converted (in the witness the operator is of an unregistered class, whose conversion
  would fail).
\<close>

theorem pauli_sentence_returns_cache:
  "pauli_rep op = Some ps \<Longrightarrow> pauli_sentence op = Inr ps"
  by (simp add: pauli_sentence_def)

theorem pauli_sentence_returns_cache_witness:
  "pauli_rep (Operator (Some [([], 3)]) (OtherOp ''RX'' [0])) = Some [([], 3)]
   \<and> pauli_sentence (Operator (Some [([], 3)]) (OtherOp ''RX'' [0])) = Inr [([], 3)]
   \<and> pauli_sentence_dispatch (Operator (Some [([], 3)]) (OtherOp ''RX'' [0]))
       = Inl (NotPauliCombination (Operator (Some [([], 3)]) (OtherOp ''RX'' [0])))"
  using pauli_sentence_returns_cache [of "Operator (Some [([], 3)]) (OtherOp ''RX'' [0])" "[([], 3)]"]
  by simp








section \<open>Properties of the measurement engine\<close>

text \<open>
  Claim C9. An expectation-value measurement process without an observable does not
  reach the diagonalizing-gate strategy: selecting the strategy reads the name of the
  missing observable and \<^verbatim>\<open>measure\<close> fails with an attribute error.
\<close>

theorem measure_expval_without_obs:
  assumes "mp_class mp = ExpectationMP" and "obs mp = None"
  shows "measure apply_operation mp state = Inl AttributeError
         \<and> get_measurement_function mp \<noteq> Inr StateDiagonalizingGates"
  using assms
  by (simp add: measure_def get_measurement_function_def isinstance_StateMeasurement_def
      isinstance_ExpectationMP_def)

theorem measure_expval_without_obs_witness:
  "mp_class \<lparr>mp_class = ExpectationMP, obs = None, diagonalizing_gates = [],
             process_state = (\<lambda>v ws. Array v)\<rparr> = ExpectationMP
   \<and> obs \<lparr>mp_class = ExpectationMP, obs = None, diagonalizing_gates = [],
          process_state = (\<lambda>v ws. Array v)\<rparr> = None
   \<and> measure (\<lambda>op st. st)
        \<lparr>mp_class = ExpectationMP, obs = None, diagonalizing_gates = [],
         process_state = (\<lambda>v ws. Array v)\<rparr>
        \<lparr>shape = [2], flat = [1, 0]\<rparr> = Inl AttributeError"
  using measure_expval_without_obs
    [of "\<lparr>mp_class = ExpectationMP, obs = None, diagonalizing_gates = [],
           process_state = (\<lambda>v ws. Array v)\<rparr>" "\<lambda>op st. st" "\<lparr>shape = [2], flat = [1, 0]\<rparr>"]
  by simp

lemma sum_lessThan_two: "(\<Sum>k<2::nat. f k) = f 0 + f 1"
  by (simp add: numeral_2_eq_2)

text \<open>
  Claim C2, as stated: for every measurement process, \<^verbatim>\<open>measure\<close> follows the dispatch
  rule (not a state measurement: not implemented; an expectation value whose observable
  is named "Hamiltonian" or "SparseHamiltonian": the sparse strategy; every other case:
  the diagonalizing-gate strategy). It fails for an expectation value without observable,
  where the rule's last case gives the diagonalizing-gate result and the code raises.
\<close>

theorem measure_dispatch_counterexample:
  "measure (\<lambda>op st. st)
     \<lparr>mp_class = ExpectationMP, obs = None, diagonalizing_gates = [],
      process_state = (\<lambda>v ws. Array v)\<rparr> \<lparr>shape = [2], flat = [1, 0]\<rparr>
     = Inl AttributeError
   \<and> dispatch_rule (\<lambda>op st. st)
     \<lparr>mp_class = ExpectationMP, obs = None, diagonalizing_gates = [],
      process_state = (\<lambda>v ws. Array v)\<rparr> \<lparr>shape = [2], flat = [1, 0]\<rparr>
     = Inr (Array [1, 0])"
  by (simp add: measure_def get_measurement_function_def isinstance_StateMeasurement_def
      isinstance_ExpectationMP_def dispatch_rule_def state_diagonalizing_gates_def)

text \<open>
  Claim C2, amended: for every measurement process that is not an expectation value or
  that carries an observable, \<^verbatim>\<open>measure\<close> follows the dispatch rule in its priority
  order.
\<close>

theorem measure_dispatch:
  assumes "mp_class mp \<noteq> ExpectationMP \<or> obs mp \<noteq> None"
  shows "measure apply_operation mp state = dispatch_rule apply_operation mp state"
  using assms
  by (auto simp: measure_def get_measurement_function_def dispatch_rule_def
      call_measurement_function_def isinstance_ExpectationMP_def split: option.splits)

theorem measure_dispatch_witness:
  "obs \<lparr>mp_class = ExpectationMP,
      obs = Some \<lparr>obs_name = Name ''Hamiltonian'',
        sparse_matrix = (\<lambda>ws. Inr \<lparr>nrows = 2, ncols = 2,
           entry = (\<lambda>i j. if i = j then (if i = 0 then 1 else - 1) else 0)\<rparr>)\<rparr>,
      diagonalizing_gates = [], process_state = (\<lambda>v ws. Array v)\<rparr> \<noteq> None
   \<and> measure (\<lambda>op st. st) \<lparr>mp_class = ExpectationMP,
      obs = Some \<lparr>obs_name = Name ''Hamiltonian'',
        sparse_matrix = (\<lambda>ws. Inr \<lparr>nrows = 2, ncols = 2,
           entry = (\<lambda>i j. if i = j then (if i = 0 then 1 else - 1) else 0)\<rparr>)\<rparr>,
      diagonalizing_gates = [], process_state = (\<lambda>v ws. Array v)\<rparr>
      \<lparr>shape = [2], flat = [0, 1]\<rparr> = Inr (Scalar (- 1))"
proof -
  let ?mp = "\<lparr>mp_class = ExpectationMP,
      obs = Some \<lparr>obs_name = Name ''Hamiltonian'',
        sparse_matrix = (\<lambda>ws. Inr \<lparr>nrows = 2, ncols = 2,
           entry = (\<lambda>i j. if i = j then (if i = 0 then 1 else - 1) else 0)\<rparr>)\<rparr>,
      diagonalizing_gates = [], process_state = (\<lambda>v ws. Array v)\<rparr>"
  have h: "mp_class ?mp \<noteq> ExpectationMP \<or> obs ?mp \<noteq> None" by simp
  have "dispatch_rule (\<lambda>op st. st) ?mp \<lparr>shape = [2], flat = [0, 1]\<rparr> = Inr (Scalar (- 1))"
    by (simp add: dispatch_rule_def isinstance_StateMeasurement_def isinstance_ExpectationMP_def
        name_in_hamiltonians_def state_hamiltonian_expval_def csr_dot_def sum_lessThan_two)
  with measure_dispatch [OF h, of "\<lambda>op st. st" "\<lparr>shape = [2], flat = [0, 1]\<rparr>"]
  show ?thesis by simp
qed

text \<open>
  Claim C4. For every state and every observable with a sparse matrix \<open>H\<close>, the
  sparse-expectation path returns the real part of the contraction
  \<open>conj(state) . H . state\<close> (a dimension mismatch between \<open>H\<close> and the state raises
  instead); whatever it returns is a scalar with imaginary part zero.
\<close>

theorem state_hamiltonian_expval_real:
  assumes "obs mp = Some ob" and "sparse_matrix ob [0..<length (shape state)] = Inr H"
  shows "state_hamiltonian_expval mp state =
           (if ncols H = length (flat state) \<and> nrows H = length (flat state)
            then Inr (Scalar (complex_of_real (Re (expval_contraction H (flat state)))))
            else Inl DimensionMismatch)
         \<and> (\<forall>r. state_hamiltonian_expval mp state = Inr r \<longrightarrow> (\<exists>z. r = Scalar z \<and> Im z = 0))"
  using assms
  by (auto simp: state_hamiltonian_expval_def csr_dot_def expval_contraction_def Let_def)

theorem state_hamiltonian_expval_real_witness:
  "state_hamiltonian_expval
     \<lparr>mp_class = ExpectationMP,
      obs = Some \<lparr>obs_name = Name ''SparseHamiltonian'',
        sparse_matrix = (\<lambda>ws. Inr \<lparr>nrows = 2, ncols = 2,
           entry = (\<lambda>i j. if i = j then 3 + \<i> else 0)\<rparr>)\<rparr>,
      diagonalizing_gates = [], process_state = (\<lambda>v ws. Array v)\<rparr>
     \<lparr>shape = [2], flat = [1, 0]\<rparr> = Inr (Scalar 3)"
proof -
  let ?H = "\<lparr>nrows = 2, ncols = 2, entry = (\<lambda>i j. if i = j then 3 + \<i> else 0)\<rparr>"
  let ?ob = "\<lparr>obs_name = Name ''SparseHamiltonian'', sparse_matrix = (\<lambda>ws. Inr ?H)\<rparr>"
  let ?mp = "\<lparr>mp_class = ExpectationMP, obs = Some ?ob, diagonalizing_gates = [],
      process_state = (\<lambda>v ws. Array v)\<rparr>"
  let ?st = "\<lparr>shape = [2], flat = [1, 0]\<rparr>"
  have h1: "obs ?mp = Some ?ob" by simp
  have h2: "sparse_matrix ?ob [0..<length (shape ?st)] = Inr ?H" by simp
  from state_hamiltonian_expval_real [OF h1 h2]
  show ?thesis by (simp add: expval_contraction_def sum_lessThan_two)
qed

section \<open>Properties of the matrix decomposition\<close>

lemma xor_indices_length: "length (xor_indices side idx) = side"
  by (induction idx) auto

lemma xor_indices_nth: "j < side \<Longrightarrow> xor_indices side idx ! j = j XOR idx"
proof (induction idx)
  case 0
  then show ?case by simp
next
  case (Suc idx)
  have "(j XOR idx) XOR (Suc idx XOR idx) = j XOR Suc idx"
    by (metis xor.assoc xor.commute xor.left_neutral xor_self_eq)
  with Suc show ?case by (simp add: xor_indices_length)
qed

lemma permute_by_xor_eq: "j < side \<Longrightarrow> permute_by_xor side m r j = m r (j XOR r)"
  by (simp add: permute_by_xor_def xor_indices_nth)

lemma xor_less_pow2: "a < 2 ^ n \<Longrightarrow> b < 2 ^ n \<Longrightarrow> a XOR b < (2::nat) ^ n"
  by (metis take_bit_nat_eq_self_iff take_bit_xor)

lemma sum_split_pow2:
  fixes f :: "nat \<Rightarrow> 'a::comm_monoid_add"
  shows "(\<Sum>s<2 ^ Suc n. f s) = (\<Sum>s<2 ^ n. f s) + (\<Sum>s<2 ^ n. f (2 ^ n + s))"
proof -
  have "{..<(2::nat) ^ Suc n} = {..<2 ^ n} \<union> {2 ^ n..<2 ^ n + 2 ^ n}" by auto
  moreover have "{..<(2::nat) ^ n} \<inter> {2 ^ n..<2 ^ n + 2 ^ n} = {}" by auto
  ultimately have "(\<Sum>s<2 ^ Suc n. f s) = (\<Sum>s<2 ^ n. f s) + (\<Sum>s\<in>{2 ^ n..<2 ^ n + 2 ^ n}. f s)"
    by (simp add: sum.union_disjoint)
  also have "(\<Sum>s\<in>{2 ^ n..<2 ^ n + 2 ^ n}. f s) = (\<Sum>s\<in>{0..<2 ^ n}. f (s + 2 ^ n))"
    using sum.shift_bounds_nat_ivl [of f 0 "2 ^ n" "2 ^ n"] by simp
  also have "\<dots> = (\<Sum>s<2 ^ n. f (2 ^ n + s))"
    by (simp add: atLeast0LessThan add.commute)
  finally show ?thesis .
qed

lemma bit_low_add: "p < n \<Longrightarrow> bit ((2::nat) ^ n + s) p = bit s p"
proof -
  assume "p < n"
  then have "bit (take_bit n ((2::nat) ^ n + s)) p = bit (take_bit n s) p"
    by (simp add: take_bit_eq_mod)
  with \<open>p < n\<close> show ?thesis by (simp add: bit_take_bit_iff)
qed

lemma bit_high_add: "s < 2 ^ n \<Longrightarrow> bit ((2::nat) ^ n + s) n"
  by (simp add: bit_iff_odd)

lemma bit_high_small: "s < 2 ^ n \<Longrightarrow> \<not> bit (s::nat) n"
  by (simp add: bit_iff_odd)

lemma wsign_Suc: "wsign (Suc n) z s = wsign n z s * (if bit z n \<and> bit s n then - 1 else 1)"
  by (simp add: wsign_def)

lemma wsign_add_right: "wsign n z (2 ^ n + s) = wsign n z s"
  by (simp add: wsign_def bit_low_add)

lemma wsign_add_left: "wsign n (2 ^ n + z) s = wsign n z s"
  by (simp add: wsign_def bit_low_add)

lemma wsign_xor: "wsign n z a * wsign n z s = wsign n z (a XOR s)"
  unfolding wsign_def prod.distrib [symmetric]
  by (rule prod.cong) (auto simp: bit_xor_iff)

lemma wsign_orthogonal:
  "(\<Sum>z<2 ^ n. wsign n z d) = (if d mod 2 ^ n = 0 then 2 ^ n else 0)"
proof (induction n)
  case 0
  then show ?case by (simp add: wsign_def)
next
  case (Suc n)
  have a: "(\<Sum>z<2 ^ n. wsign (Suc n) z d) = (\<Sum>z<2 ^ n. wsign n z d)"
    by (rule sum.cong) (auto simp: wsign_Suc bit_high_small)
  have b: "(\<Sum>z<2 ^ n. wsign (Suc n) (2 ^ n + z) d)
           = (if bit d n then - 1 else 1) * (\<Sum>z<2 ^ n. wsign n z d)"
    unfolding sum_distrib_left
    by (rule sum.cong) (auto simp: wsign_Suc bit_high_add wsign_add_left)
  have c: "d mod 2 ^ Suc n = 0 \<longleftrightarrow> d mod 2 ^ n = 0 \<and> \<not> bit d n"
  proof -
    have "d mod (2 ^ n * 2) = 2 ^ n * (d div 2 ^ n mod 2) + d mod 2 ^ n"
      by (rule mod_mult2_eq)
    then have "d mod 2 ^ Suc n = 2 ^ n * (d div 2 ^ n mod 2) + d mod 2 ^ n"
      by (simp add: mult.commute)
    then show ?thesis by (auto simp: bit_iff_odd odd_iff_mod_2_eq_one)
  qed
  show ?case
    unfolding sum_split_pow2 a b Suc.IH c by auto
qed

lemma hadamard_step_bstep: "hadamard_step n idx t = bstep (n - 1 - idx) t"
  by (simp add: hadamard_step_def bstep_def Let_def)

lemma hadamard_transform_Suc:
  "hadamard_transform (Suc n) t = hadamard_transform n (bstep n t)"
proof -
  have "[0..<Suc n] = 0 # map Suc [0..<n]"
    by (simp add: upt_conv_Cons map_Suc_upt del: upt_Suc)
  then have "hadamard_transform (Suc n) t
      = foldl (\<lambda>t idx. hadamard_step (Suc n) idx t) (hadamard_step (Suc n) 0 t) (map Suc [0..<n])"
    by (simp add: hadamard_transform_def del: upt_Suc)
  also have "\<dots> = foldl (\<lambda>t idx. hadamard_step n idx t) (bstep n t) [0..<n]"
    by (simp add: foldl_map hadamard_step_bstep del: upt_Suc)
  finally show ?thesis by (simp add: hadamard_transform_def)
qed

lemma iphase_Suc: "iphase (Suc n) z x = iphase n z x * (if bit z n \<and> bit x n then \<i> else 1)"
  by (simp add: iphase_def)

lemma div_mult_low: "s < 2 ^ n \<Longrightarrow> (h * 2 ^ n + s) div 2 ^ n = (h::nat)"
  by simp

lemma high_part_even:
  "\<not> bit (r::nat) n \<Longrightarrow> r div 2 ^ n * 2 ^ n = r div 2 ^ Suc n * 2 ^ Suc n"
proof -
  assume "\<not> bit r n"
  then have "even (r div 2 ^ n)" by (simp add: bit_iff_odd)
  then have "r div 2 ^ n = 2 * (r div 2 ^ n div 2)" by simp
  also have "r div 2 ^ n div 2 = r div 2 ^ Suc n"
    using div_mult2_eq [of r "2 ^ n" 2] by (simp add: mult.commute)
  finally show ?thesis by simp
qed

lemma high_part_odd:
  "bit (r::nat) n \<Longrightarrow> r div 2 ^ n * 2 ^ n = r div 2 ^ Suc n * 2 ^ Suc n + 2 ^ n"
proof -
  assume "bit r n"
  then have "odd (r div 2 ^ n)" by (simp add: bit_iff_odd)
  then have "r div 2 ^ n = 2 * (r div 2 ^ n div 2) + 1" by simp
  also have "r div 2 ^ n div 2 = r div 2 ^ Suc n"
    using div_mult2_eq [of r "2 ^ n" 2] by (simp add: mult.commute)
  finally have "r div 2 ^ n = 2 * (r div 2 ^ Suc n) + 1" .
  then have "r div 2 ^ n * 2 ^ n = (2 * (r div 2 ^ Suc n) + 1) * 2 ^ n" by simp
  then show ?thesis by (simp add: algebra_simps)
qed

lemma hadamard_transform_closed:
  "hadamard_transform n t r j
     = iphase n r j * (\<Sum>s<2 ^ n. wsign n r s * t (r div 2 ^ n * 2 ^ n + s) j)"
proof (induction n arbitrary: t)
  case 0
  then show ?case by (simp add: hadamard_transform_def iphase_def wsign_def)
next
  case (Suc n)
  let ?hi = "r div 2 ^ n * 2 ^ n"
  let ?hi' = "r div 2 ^ Suc n * 2 ^ Suc n"
  have bitn: "bit (?hi + s) n = bit r n" if "s < 2 ^ n" for s
    using that by (simp add: bit_iff_odd)
  have step: "hadamard_transform (Suc n) t r j
      = iphase n r j * (\<Sum>s<2 ^ n. wsign n r s * bstep n t (?hi + s) j)"
    by (simp add: hadamard_transform_Suc Suc.IH)
  show ?case
  proof (cases "bit r n")
    case False
    have hi: "?hi = ?hi'" using False by (rule high_part_even)
    have "(\<Sum>s<2 ^ n. wsign n r s * bstep n t (?hi + s) j)
        = (\<Sum>s<2 ^ n. wsign n r s * t (?hi' + s) j)
          + (\<Sum>s<2 ^ n. wsign n r s * t (?hi' + (2 ^ n + s)) j)"
      unfolding sum.distrib [symmetric]
    proof (rule sum.cong)
      fix s assume "s \<in> {..<(2::nat) ^ n}"
      then have "s < 2 ^ n" by simp
      from bitn [OF this] False have "\<not> bit (?hi + s) n" by simp
      then show "wsign n r s * bstep n t (?hi + s) j
          = wsign n r s * t (?hi' + s) j + wsign n r s * t (?hi' + (2 ^ n + s)) j"
        unfolding bstep_def hi by (simp add: algebra_simps)
    qed simp
    also have "\<dots> = (\<Sum>s<2 ^ Suc n. wsign (Suc n) r s * t (?hi' + s) j)"
      unfolding sum_split_pow2 using False by (simp add: wsign_Suc wsign_add_right)
    finally show ?thesis
      unfolding step using False by (simp add: iphase_Suc)
  next
    case True
    have hi: "?hi = ?hi' + 2 ^ n" using True by (rule high_part_odd)
    let ?c = "if bit j n then \<i> else 1"
    have "(\<Sum>s<2 ^ n. wsign n r s * bstep n t (?hi + s) j)
        = ?c * ((\<Sum>s<2 ^ n. wsign n r s * t (?hi' + s) j)
          + (\<Sum>s<2 ^ n. - wsign n r s * t (?hi' + (2 ^ n + s)) j))"
      unfolding sum.distrib [symmetric] sum_distrib_left
    proof (rule sum.cong)
      fix s assume "s \<in> {..<(2::nat) ^ n}"
      then have "s < 2 ^ n" by simp
      from bitn [OF this] True have b: "bit (?hi + s) n" by simp
      have e1: "?hi + s - 2 ^ n = ?hi' + s" unfolding hi by simp
      have e2: "?hi + s = ?hi' + (2 ^ n + s)" unfolding hi by (simp only: add.assoc)
      define A where "A = t (?hi' + s) j"
      define B where "B = t (?hi' + (2 ^ n + s)) j"
      have "bstep n t (?hi + s) j = (t (?hi + s - 2 ^ n) j - t (?hi + s) j) * ?c"
        using b unfolding bstep_def by simp
      also have "\<dots> = (A - B) * ?c"
        unfolding A_def B_def
        using arg_cong [OF e1, of "\<lambda>x. t x j"] arg_cong [OF e2, of "\<lambda>x. t x j"]
        by (simp only:)
      finally have eq: "bstep n t (?hi + s) j = (A - B) * ?c" .
      have "wsign n r s * ((A - B) * ?c) = ?c * (wsign n r s * A + - wsign n r s * B)"
        by (simp add: algebra_simps)
      then have "wsign n r s * bstep n t (?hi + s) j = ?c * (wsign n r s * A + - wsign n r s * B)"
        by (simp only: eq)
      then show "wsign n r s * bstep n t (?hi + s) j
          = ?c * (wsign n r s * t (?hi' + s) j + - wsign n r s * t (?hi' + (2 ^ n + s)) j)"
        unfolding A_def B_def .
    qed simp
    also have "(\<Sum>s<2 ^ n. wsign n r s * t (?hi' + s) j)
          + (\<Sum>s<2 ^ n. - wsign n r s * t (?hi' + (2 ^ n + s)) j)
        = (\<Sum>s<2 ^ Suc n. wsign (Suc n) r s * t (?hi' + s) j)"
      unfolding sum_split_pow2 using True
      by (simp add: wsign_Suc wsign_add_right bit_high_add bit_high_small)
    finally show ?thesis
      unfolding step using True by (simp add: iphase_Suc)
  qed
qed

lemma term_matrix_closed:
  assumes "nrows m = 2 ^ n" and "z < 2 ^ n" and "x < 2 ^ n"
  shows "term_matrix n m z x
     = iphase n z x * (\<Sum>s<2 ^ n. wsign n z s * entry m s (x XOR s)) / 2 ^ n"
proof -
  have "hadamard_transform n (permute_by_xor (2 ^ n) (entry m)) z x
      = iphase n z x * (\<Sum>s<2 ^ n. wsign n z s * permute_by_xor (2 ^ n) (entry m) s x)"
    using assms(2) by (simp add: hadamard_transform_closed)
  also have "(\<Sum>s<2 ^ n. wsign n z s * permute_by_xor (2 ^ n) (entry m) s x)
      = (\<Sum>s<2 ^ n. wsign n z s * entry m s (x XOR s))"
    using assms(3) by (simp add: permute_by_xor_eq)
  finally show ?thesis using assms(1) by (simp add: term_matrix_def)
qed

lemma foldl_base2: "foldl (\<lambda>acc b. 2 * acc + b) acc bits
    = acc * 2 ^ length bits + foldl (\<lambda>acc b. 2 * acc + b) (0::nat) bits"
proof (induction bits arbitrary: acc)
  case Nil
  then show ?case by simp
next
  case (Cons b bits)
  show ?case
    using Cons.IH [of "2 * acc + b"] Cons.IH [of "b"] by (simp add: algebra_simps)
qed

lemma int_base2_Nil: "int_base2 [] = 0"
  by (simp add: int_base2_def)

lemma int_base2_Cons: "int_base2 (b # bits) = b * 2 ^ length bits + int_base2 bits"
  using foldl_base2 [of b bits] by (simp add: int_base2_def)

lemma int_base2_less: "\<forall>b\<in>set bits. b \<le> 1 \<Longrightarrow> int_base2 bits < 2 ^ length bits"
proof (induction bits)
  case Nil
  then show ?case by (simp add: int_base2_Nil)
next
  case (Cons b bits)
  then have "int_base2 bits < 2 ^ length bits" and "b \<le> 1" by simp_all
  then have "b * 2 ^ length bits + int_base2 bits < 1 * 2 ^ length bits + 2 ^ length bits"
    by (metis add_le_less_mono mult_le_mono1)
  then show ?case by (simp add: int_base2_Cons)
qed

lemma z_bits_less: "int_base2 (z_bits rep) < 2 ^ length rep"
proof -
  have "\<forall>b\<in>set (z_bits rep). b \<le> 1" by (auto simp: z_bits_def)
  from int_base2_less [OF this] show ?thesis by (simp add: z_bits_def)
qed

lemma x_bits_less: "int_base2 (x_bits rep) < 2 ^ length rep"
proof -
  have "\<forall>b\<in>set (x_bits rep). b \<le> 1" by (auto simp: x_bits_def)
  from int_base2_less [OF this] show ?thesis by (simp add: x_bits_def)
qed

lemma product_repeat_length: "rep \<in> set (product_repeat xs n) \<Longrightarrow> length rep = n"
  by (induction n arbitrary: rep) auto

lemma product_repeat_set: "rep \<in> set (product_repeat xs n) \<Longrightarrow> set rep \<subseteq> set xs"
proof (induction n arbitrary: rep)
  case 0
  then show ?case by simp
next
  case (Suc n)
  then obtain x rep' where "rep = x # rep'" "x \<in> set xs" "rep' \<in> set (product_repeat xs n)"
    by auto
  with Suc.IH [of rep'] show ?case by simp
qed

lemma sum_list_product_Suc:
  fixes F :: "string \<Rightarrow> 'a::comm_monoid_add"
  shows "sum_list (map F (product_repeat ''IXYZ'' (Suc n)))
     = sum_list (map (\<lambda>rep. F (CHR ''I'' # rep)) (product_repeat ''IXYZ'' n))
     + sum_list (map (\<lambda>rep. F (CHR ''X'' # rep)) (product_repeat ''IXYZ'' n))
     + sum_list (map (\<lambda>rep. F (CHR ''Y'' # rep)) (product_repeat ''IXYZ'' n))
     + sum_list (map (\<lambda>rep. F (CHR ''Z'' # rep)) (product_repeat ''IXYZ'' n))"
  by (simp add: comp_def add.assoc)

lemma sum_list_product_repeat:
  fixes G :: "nat \<Rightarrow> nat \<Rightarrow> 'a::comm_monoid_add"
  shows "sum_list (map (\<lambda>rep. G (int_base2 (z_bits rep)) (int_base2 (x_bits rep)))
            (product_repeat ''IXYZ'' n))
     = (\<Sum>z<2 ^ n. \<Sum>x<2 ^ n. G z x)"
proof (induction n arbitrary: G)
  case 0
  then show ?case by (simp add: z_bits_def x_bits_def int_base2_Nil)
next
  case (Suc n)
  have len: "length rep = n" if "rep \<in> set (product_repeat ''IXYZ'' n)" for rep
    using that by (rule product_repeat_length)
  have part: "sum_list (map (\<lambda>rep. G (int_base2 (z_bits (c # rep))) (int_base2 (x_bits (c # rep))))
                 (product_repeat ''IXYZ'' n))
      = (\<Sum>z<2 ^ n. \<Sum>x<2 ^ n. G (zb * 2 ^ n + z) (xb * 2 ^ n + x))"
    if "zb = (if c \<in> set ''YZ'' then 1 else 0)" "xb = (if c \<in> set ''XY'' then 1 else 0)"
    for c zb xb
  proof -
    have "map (\<lambda>rep. G (int_base2 (z_bits (c # rep))) (int_base2 (x_bits (c # rep))))
                 (product_repeat ''IXYZ'' n)
        = map (\<lambda>rep. G (zb * 2 ^ n + int_base2 (z_bits rep)) (xb * 2 ^ n + int_base2 (x_bits rep)))
                 (product_repeat ''IXYZ'' n)"
    proof (rule map_cong [OF refl])
      fix rep assume "rep \<in> set (product_repeat ''IXYZ'' n)"
      then have l: "length rep = n" by (rule len)
      have "int_base2 (z_bits (c # rep)) = zb * 2 ^ n + int_base2 (z_bits rep)"
        using that(1) l unfolding z_bits_def by (simp only: list.map int_base2_Cons length_map)
      moreover have "int_base2 (x_bits (c # rep)) = xb * 2 ^ n + int_base2 (x_bits rep)"
        using that(2) l unfolding x_bits_def by (simp only: list.map int_base2_Cons length_map)
      ultimately show "G (int_base2 (z_bits (c # rep))) (int_base2 (x_bits (c # rep)))
        = G (zb * 2 ^ n + int_base2 (z_bits rep)) (xb * 2 ^ n + int_base2 (x_bits rep))"
        by simp
    qed
    then show ?thesis
      using Suc.IH [of "\<lambda>z x. G (zb * 2 ^ n + z) (xb * 2 ^ n + x)"] by (simp only:)
  qed
  have "sum_list (map (\<lambda>rep. G (int_base2 (z_bits rep)) (int_base2 (x_bits rep)))
            (product_repeat ''IXYZ'' (Suc n)))
      = (\<Sum>z<2 ^ n. \<Sum>x<2 ^ n. G z x)
      + (\<Sum>z<2 ^ n. \<Sum>x<2 ^ n. G z (2 ^ n + x))
      + (\<Sum>z<2 ^ n. \<Sum>x<2 ^ n. G (2 ^ n + z) (2 ^ n + x))
      + (\<Sum>z<2 ^ n. \<Sum>x<2 ^ n. G (2 ^ n + z) x)"
    unfolding sum_list_product_Suc
    using part [of 0 "CHR ''I''" 0] part [of 0 "CHR ''X''" 1]
      part [of 1 "CHR ''Y''" 1] part [of 1 "CHR ''Z''" 0]
    by simp
  also have "\<dots> = (\<Sum>z<2 ^ Suc n. \<Sum>x<2 ^ Suc n. G z x)"
    unfolding sum_split_pow2 [of _ n] by (simp add: sum.distrib ac_simps)
  finally show ?case .
qed

lemma bit_mod_pow2: "p < n \<Longrightarrow> bit ((a::nat) mod 2 ^ n) p = bit a p"
  using bit_take_bit_iff [of n a p] by (simp add: take_bit_eq_mod)

lemma wsign_mod: "wsign n z a = wsign n (z mod 2 ^ n) (a mod 2 ^ n)"
  unfolding wsign_def by (rule prod.cong) (simp_all add: bit_mod_pow2)

lemma miphase_mod: "miphase n z x = miphase n (z mod 2 ^ n) (x mod 2 ^ n)"
  unfolding miphase_def by (rule prod.cong) (simp_all add: bit_mod_pow2)

lemma iphase_mod: "iphase n z x = iphase n (z mod 2 ^ n) (x mod 2 ^ n)"
  unfolding iphase_def by (rule prod.cong) (simp_all add: bit_mod_pow2)

lemma miphase_Suc:
  "miphase (Suc n) z x = miphase n z x * (if bit z n \<and> bit x n then - \<i> else 1)"
  by (simp add: miphase_def)

lemma bit_top: "l < 2 ^ n \<Longrightarrow> h \<le> 1 \<Longrightarrow> bit (h * 2 ^ n + l :: nat) n \<longleftrightarrow> h = 1"
  by (auto simp: bit_iff_odd le_Suc_eq)

lemma xor_mod_pow2: "(a XOR b) mod 2 ^ n = (a mod 2 ^ n) XOR ((b::nat) mod 2 ^ n)"
  using take_bit_xor [of n a b] by (simp add: take_bit_eq_mod)

lemma xor_div_pow2: "(a XOR b) div 2 ^ n = (a div 2 ^ n) XOR ((b::nat) div 2 ^ n)"
  using drop_bit_xor [of n a b] by (simp add: drop_bit_eq_div)

lemma xor_eq_split:
  assumes "l < 2 ^ n"
  shows "a XOR b = h * 2 ^ n + l
     \<longleftrightarrow> (a mod 2 ^ n) XOR (b mod 2 ^ n) = l \<and> (a div 2 ^ n) XOR (b div 2 ^ n) = (h::nat)"
proof -
  have "a XOR b = h * 2 ^ n + l
      \<longleftrightarrow> (a XOR b) mod 2 ^ n = (h * 2 ^ n + l) mod 2 ^ n
          \<and> (a XOR b) div 2 ^ n = (h * 2 ^ n + l) div 2 ^ n"
    by (metis div_mult_mod_eq)
  then show ?thesis using assms by (simp add: xor_mod_pow2 xor_div_pow2)
qed

lemma observables_of_all:
  "observables_of False ws rep = map (\<lambda>(w, ob). (ob, w)) (zip ws rep)"
  by (simp add: observables_of_def case_prod_beta)

lemma factor_list:
  "map (\<lambda>(ob, w). op_map ob w) (observables_of False (w # ws) (c # rep))
     = op_map c w # map (\<lambda>(ob, w). op_map ob w) (observables_of False ws rep)"
  by (simp add: observables_of_all)

lemma xor_bits01: "ah \<le> 1 \<Longrightarrow> bh \<le> 1 \<Longrightarrow> (ah XOR bh = (0::nat)) = (ah = bh)"
  "ah \<le> 1 \<Longrightarrow> bh \<le> 1 \<Longrightarrow> (ah XOR bh = (1::nat)) = (ah \<noteq> bh)"
  by (auto simp: le_Suc_eq)

lemma pauli_entry_op_map:
  assumes "c \<in> set ''IXYZ''" and "ah \<le> 1" and "bh \<le> 1"
    and "zb = (if c \<in> set ''YZ'' then 1 else 0)" and "xb = (if c \<in> set ''XY'' then 1 else (0::nat))"
  shows "pauli_entry (op_map c w) ah bh
     = (if ah XOR bh = xb
        then (if zb = (1::nat) \<and> ah = 1 then - 1 else 1) * (if zb = 1 \<and> xb = 1 then - \<i> else 1)
        else 0)"
  using assms by (auto simp: pauli_entry_def op_map_def le_Suc_eq)

lemma div_pow2_le1: "a < 2 ^ Suc n \<Longrightarrow> a div 2 ^ n \<le> (1::nat)"
proof -
  assume "a < 2 ^ Suc n"
  then have "a < 2 * 2 ^ n" by simp
  then have "a div 2 ^ n < 2" by (rule less_mult_imp_div_less)
  then show ?thesis by simp
qed

lemma kron_entry_closed:
  assumes "set rep \<subseteq> set ''IXYZ''" and "length ws = length rep"
    and "a < 2 ^ length rep" and "b < 2 ^ length rep"
  shows "kron_entry (map (\<lambda>(ob, w). op_map ob w) (observables_of False ws rep)) a b
     = (if a XOR b = int_base2 (x_bits rep)
        then wsign (length rep) (int_base2 (z_bits rep)) a
             * miphase (length rep) (int_base2 (z_bits rep)) (int_base2 (x_bits rep))
        else 0)"
  using assms
proof (induction rep arbitrary: ws a b)
  case Nil
  then show ?case
    by (simp add: observables_of_all x_bits_def z_bits_def int_base2_Nil wsign_def miphase_def)
next
  case (Cons c rep)
  from Cons.prems(2) obtain w ws' where ws: "ws = w # ws'" and lws: "length ws' = length rep"
    by (cases ws) auto
  let ?n = "length rep"
  define zb :: nat where "zb = (if c \<in> set ''YZ'' then 1 else 0)"
  define xb :: nat where "xb = (if c \<in> set ''XY'' then 1 else 0)"
  define Z' where "Z' = int_base2 (z_bits rep)"
  define X' where "X' = int_base2 (x_bits rep)"
  define ah where "ah = a div 2 ^ ?n"
  define bh where "bh = b div 2 ^ ?n"
  define al where "al = a mod 2 ^ ?n"
  define bl where "bl = b mod 2 ^ ?n"
  have Z: "int_base2 (z_bits (c # rep)) = zb * 2 ^ ?n + Z'"
    unfolding z_bits_def zb_def Z'_def by (simp only: list.map int_base2_Cons length_map)
  have X: "int_base2 (x_bits (c # rep)) = xb * 2 ^ ?n + X'"
    unfolding x_bits_def xb_def X'_def by (simp only: list.map int_base2_Cons length_map)
  have Z'l: "Z' < 2 ^ ?n" unfolding Z'_def by (rule z_bits_less)
  have X'l: "X' < 2 ^ ?n" unfolding X'_def by (rule x_bits_less)
  have zb1: "zb \<le> 1" and xb1: "xb \<le> 1" by (simp_all add: zb_def xb_def)
  have ah1: "ah \<le> 1" and bh1: "bh \<le> 1"
    using Cons.prems(3,4) unfolding ah_def bh_def by (simp_all only: length_Cons div_pow2_le1)
  have all: "al < 2 ^ ?n" and bll: "bl < 2 ^ ?n" by (simp_all add: al_def bl_def)
  have a_eq: "a = ah * 2 ^ ?n + al" and b_eq: "b = bh * 2 ^ ?n + bl"
    unfolding ah_def al_def bh_def bl_def by (simp_all only: div_mult_mod_eq)
  have c_in: "c \<in> set ''IXYZ''" and rep_in: "set rep \<subseteq> set ''IXYZ''"
    using Cons.prems(1) by simp_all
  have IH: "kron_entry (map (\<lambda>(ob, w). op_map ob w) (observables_of False ws' rep)) al bl
     = (if al XOR bl = X' then wsign ?n Z' al * miphase ?n Z' X' else 0)"
    unfolding X'_def Z'_def by (rule Cons.IH [OF rep_in lws all bll])
  have F1: "a XOR b = xb * 2 ^ ?n + X' \<longleftrightarrow> al XOR bl = X' \<and> ah XOR bh = xb"
    unfolding al_def bl_def ah_def bh_def by (rule xor_eq_split [OF X'l])
  have bitZ: "bit (zb * 2 ^ ?n + Z') ?n \<longleftrightarrow> zb = 1" by (rule bit_top [OF Z'l zb1])
  have bitX: "bit (xb * 2 ^ ?n + X') ?n \<longleftrightarrow> xb = 1" by (rule bit_top [OF X'l xb1])
  have bita: "bit a ?n \<longleftrightarrow> ah = 1" unfolding a_eq by (rule bit_top [OF all ah1])
  have F2: "wsign (Suc ?n) (zb * 2 ^ ?n + Z') a
      = wsign ?n Z' al * (if zb = 1 \<and> ah = 1 then - 1 else 1)"
  proof -
    have "wsign ?n (zb * 2 ^ ?n + Z') a = wsign ?n Z' al"
      using wsign_mod [of ?n "zb * 2 ^ ?n + Z'" a] Z'l by (simp add: al_def)
    then show ?thesis by (simp add: wsign_Suc bitZ bita)
  qed
  have F3: "miphase (Suc ?n) (zb * 2 ^ ?n + Z') (xb * 2 ^ ?n + X')
      = miphase ?n Z' X' * (if zb = 1 \<and> xb = 1 then - \<i> else 1)"
  proof -
    have "miphase ?n (zb * 2 ^ ?n + Z') (xb * 2 ^ ?n + X') = miphase ?n Z' X'"
      using miphase_mod [of ?n "zb * 2 ^ ?n + Z'" "xb * 2 ^ ?n + X'"] Z'l X'l by simp
    then show ?thesis by (simp add: miphase_Suc bitZ bitX)
  qed
  have PE: "pauli_entry (op_map c w) ah bh
     = (if ah XOR bh = xb
        then (if zb = 1 \<and> ah = 1 then - 1 else 1) * (if zb = 1 \<and> xb = 1 then - \<i> else 1)
        else 0)"
    by (rule pauli_entry_op_map [OF c_in ah1 bh1 zb_def xb_def])
  have len: "length (map (\<lambda>(ob, w). op_map ob w) (observables_of False ws' rep)) = ?n"
    using lws by (simp add: observables_of_all)
  have "kron_entry (map (\<lambda>(ob, w). op_map ob w) (observables_of False ws (c # rep))) a b
      = pauli_entry (op_map c w) ah bh
        * kron_entry (map (\<lambda>(ob, w). op_map ob w) (observables_of False ws' rep)) al bl"
    unfolding ws factor_list kron_entry.simps len ah_def bh_def al_def bl_def ..
  also have "\<dots> = (if a XOR b = xb * 2 ^ ?n + X'
        then wsign (Suc ?n) (zb * 2 ^ ?n + Z') a
             * miphase (Suc ?n) (zb * 2 ^ ?n + Z') (xb * 2 ^ ?n + X')
        else 0)"
    unfolding PE IH F1 F2 F3 by simp
  finally show ?case unfolding Z X by simp
qed

lemma iphase_miphase: "iphase n z x * miphase n z x = 1"
  unfolding iphase_def miphase_def prod.distrib [symmetric]
  by (rule prod.neutral) simp

lemma norm_wsign: "cmod (wsign n z a) = 1"
  unfolding wsign_def prod_norm [symmetric]
  by (rule prod.neutral) simp

lemma norm_miphase: "cmod (miphase n z x) = 1"
  unfolding miphase_def prod_norm [symmetric]
  by (rule prod.neutral) simp

lemma xor_mod_zero_iff:
  assumes "a < 2 ^ n" and "s < 2 ^ n"
  shows "(a XOR s) mod 2 ^ n = 0 \<longleftrightarrow> s = (a::nat)"
proof -
  have "a XOR s < 2 ^ n" using assms by (rule xor_less_pow2)
  then have "(a XOR s) mod 2 ^ n = a XOR s" by simp
  moreover have "a XOR s = 0 \<longleftrightarrow> s = a"
    by (metis xor.assoc xor.right_neutral xor_self_eq)
  ultimately show ?thesis by simp
qed

lemma xor_cancel: "(a XOR b) XOR a = (b::nat)"
  by (metis xor.assoc xor.commute xor.right_neutral xor_self_eq)

lemma pauli_sum_roundtrip:
  assumes "nrows m = 2 ^ n" and "a < 2 ^ n" and "b < 2 ^ n"
  shows "(\<Sum>z<2 ^ n. term_matrix n m z (a XOR b) * (wsign n z a * miphase n z (a XOR b)))
     = entry m a b"
proof -
  let ?x = "a XOR b"
  have x: "?x < 2 ^ n" using assms(2,3) by (rule xor_less_pow2)
  have "(\<Sum>z<2 ^ n. term_matrix n m z ?x * (wsign n z a * miphase n z ?x))
      = (\<Sum>z<2 ^ n. (\<Sum>s<2 ^ n. wsign n z (a XOR s) * entry m s (?x XOR s)) / 2 ^ n)"
  proof (rule sum.cong)
    fix z assume "z \<in> {..<(2::nat) ^ n}"
    then have z: "z < 2 ^ n" by simp
    have "term_matrix n m z ?x * (wsign n z a * miphase n z ?x)
        = (iphase n z ?x * miphase n z ?x)
          * (wsign n z a * (\<Sum>s<2 ^ n. wsign n z s * entry m s (?x XOR s))) / 2 ^ n"
      unfolding term_matrix_closed [OF assms(1) z x] by (simp add: algebra_simps)
    also have "wsign n z a * (\<Sum>s<2 ^ n. wsign n z s * entry m s (?x XOR s))
        = (\<Sum>s<2 ^ n. wsign n z (a XOR s) * entry m s (?x XOR s))"
      unfolding sum_distrib_left wsign_xor [symmetric] by (simp add: algebra_simps)
    finally show "term_matrix n m z ?x * (wsign n z a * miphase n z ?x)
        = (\<Sum>s<2 ^ n. wsign n z (a XOR s) * entry m s (?x XOR s)) / 2 ^ n"
      by (simp add: iphase_miphase)
  qed simp
  also have "\<dots> = (\<Sum>s<2 ^ n. (\<Sum>z<2 ^ n. wsign n z (a XOR s)) * entry m s (?x XOR s)) / 2 ^ n"
    unfolding sum_divide_distrib [symmetric] sum_distrib_right
    by (subst sum.swap) simp
  also have "(\<Sum>s<2 ^ n. (\<Sum>z<2 ^ n. wsign n z (a XOR s)) * entry m s (?x XOR s))
      = (\<Sum>s<2 ^ n. if s = a then 2 ^ n * entry m a b else 0)"
  proof (rule sum.cong)
    fix s assume "s \<in> {..<(2::nat) ^ n}"
    then have s: "s < 2 ^ n" by simp
    show "(\<Sum>z<2 ^ n. wsign n z (a XOR s)) * entry m s (?x XOR s)
        = (if s = a then 2 ^ n * entry m a b else 0)"
      unfolding wsign_orthogonal xor_mod_zero_iff [OF assms(2) s]
      by (simp add: xor_cancel)
  qed simp
  also have "\<dots> = 2 ^ n * entry m a b"
    using assms(2) by simp
  finally show ?thesis by simp
qed

lemma floor_log2_bounds: "0 < k \<Longrightarrow> 2 ^ floor_log2 k \<le> k \<and> k < 2 ^ Suc (floor_log2 k)"
proof (induction k rule: floor_log2.induct)
  case (1 k)
  show ?case
  proof (cases "k < 2")
    case True
    with 1(2) have "k = 1" by simp
    then show ?thesis by (simp add: floor_log2.simps)
  next
    case False
    then have "0 < k div 2" by simp
    with 1(1) False have IH: "2 ^ floor_log2 (k div 2) \<le> k div 2"
      "k div 2 < 2 ^ Suc (floor_log2 (k div 2))" by simp_all
    have fl: "floor_log2 k = Suc (floor_log2 (k div 2))"
      using False by (subst floor_log2.simps) simp
    from IH show ?thesis unfolding fl by auto
  qed
qed

lemma floor_log2_unique:
  assumes "2 ^ q \<le> k" and "k < 2 ^ Suc q"
  shows "floor_log2 k = q"
proof -
  have k: "0 < k" using assms(1) by (metis gr0I not_le zero_less_numeral zero_less_power)
  from floor_log2_bounds [OF k] have
    b: "2 ^ floor_log2 k \<le> k" "k < 2 ^ Suc (floor_log2 k)" by simp_all
  have "(2::nat) ^ q < 2 ^ Suc (floor_log2 k)" using assms(1) b(2) by simp
  then have "q < Suc (floor_log2 k)" by (simp only: power_strict_increasing_iff one_less_numeral_iff semiring_norm)
  moreover have "(2::nat) ^ floor_log2 k < 2 ^ Suc q" using assms(2) b(1) by simp
  then have "floor_log2 k < Suc q" by (simp only: power_strict_increasing_iff one_less_numeral_iff semiring_norm)
  ultimately show ?thesis by simp
qed

lemma floor_log2_pow2: "floor_log2 (2 ^ n) = n"
  by (rule floor_log2_unique) simp_all

lemma int_log2_pow2: "int_log2 (2 ^ n) = Inr n"
  by (simp add: int_log2_def floor_log2_pow2)

lemma int_ceil_log2_pow2: "int_ceil_log2 (2 ^ n) = Inr n"
proof (cases n)
  case 0
  then show ?thesis by (simp add: int_ceil_log2_def)
next
  case (Suc k)
  have "floor_log2 (2 ^ Suc k - 1) = k"
    by (rule floor_log2_unique) simp_all
  then show ?thesis using Suc by (simp add: int_ceil_log2_def)
qed

lemma concat_map_if2:
  "concat (map (\<lambda>x. if Q x then (if R x then [f x] else []) else []) xs)
     = map f (filter (\<lambda>x. Q x \<and> R x) xs)"
  by (induction xs) auto

lemma observables_nonempty:
  "0 < length rep \<Longrightarrow> length ws = length rep \<Longrightarrow> observables_of False ws rep \<noteq> []"
  by (cases rep; cases ws) (auto simp: observables_of_all)

lemma decomposition_terms_all:
  assumes "0 < n" and "length ws = n"
  shows "decomposition_terms n t False ws
     = map (\<lambda>rep. (t (int_base2 (z_bits rep)) (int_base2 (x_bits rep)), observables_of False ws rep))
         (filter (\<lambda>rep. \<not> allclose_zero (t (int_base2 (z_bits rep)) (int_base2 (x_bits rep))))
            (product_repeat ''IXYZ'' n))"
proof -
  have "filter (\<lambda>rep. \<not> allclose_zero (t (int_base2 (z_bits rep)) (int_base2 (x_bits rep)))
                  \<and> observables_of False ws rep \<noteq> []) (product_repeat ''IXYZ'' n)
      = filter (\<lambda>rep. \<not> allclose_zero (t (int_base2 (z_bits rep)) (int_base2 (x_bits rep))))
          (product_repeat ''IXYZ'' n)"
  proof (rule filter_cong [OF refl])
    fix rep assume "rep \<in> set (product_repeat ''IXYZ'' n)"
    then have "length rep = n" by (rule product_repeat_length)
    with assms have "observables_of False ws rep \<noteq> []"
      by (simp add: observables_nonempty)
    then show "(\<not> allclose_zero (t (int_base2 (z_bits rep)) (int_base2 (x_bits rep)))
                  \<and> observables_of False ws rep \<noteq> [])
        = (\<not> allclose_zero (t (int_base2 (z_bits rep)) (int_base2 (x_bits rep))))" by simp
  qed
  then show ?thesis
    unfolding decomposition_terms_def concat_map_if2 by simp
qed

lemma factors_of_op_map: "factors_of (op_map c w) = [op_map c w]"
  by (simp add: factors_of_def op_map_def)

lemma factors_of_matmul: "factors_of (matmul x y) = factors_of x @ factors_of y"
  by (simp add: matmul_def factors_of_def)

lemma reduce_from_matmul:
  "\<forall>x\<in>set xs. factors_of x = [x] \<Longrightarrow>
     \<exists>r. reduce_from matmul acc (map Inr xs) = Inr r \<and> factors_of r = factors_of acc @ xs"
proof (induction xs arbitrary: acc)
  case Nil
  then show ?case by simp
next
  case (Cons x xs)
  then have "\<exists>r. reduce_from matmul (matmul acc x) (map Inr xs) = Inr r
      \<and> factors_of r = factors_of (matmul acc x) @ xs" by simp
  with Cons.prems show ?case by (simp add: factors_of_matmul)
qed

lemma reduce_matmul:
  assumes "xs \<noteq> []" and "\<forall>x\<in>set xs. factors_of x = [x]"
  shows "\<exists>r. reduce matmul (map Inr xs) = Inr r \<and> factors_of r = xs"
proof -
  from assms(1) obtain x rest where xs: "xs = x # rest" by (cases xs) auto
  with assms(2) have "\<forall>y\<in>set rest. factors_of y = [y]" and "factors_of x = [x]" by simp_all
  with reduce_from_matmul [of rest x] xs show ?thesis by simp
qed

lemma reduce_term_op:
  assumes "obs_term \<noteq> []"
  shows "\<exists>r. reduce matmul (map (\<lambda>(ob, w). Inr (op_map ob w)) obs_term) = Inr r
       \<and> factors_of r = map (\<lambda>(ob, w). op_map ob w) obs_term"
proof -
  have eq: "map (\<lambda>(ob, w). Inr (op_map ob w)) obs_term
      = map Inr (map (\<lambda>(ob, w). op_map ob w) obs_term)"
    by (simp add: case_prod_beta)
  have "\<exists>r. reduce matmul (map Inr (map (\<lambda>(ob, w). op_map ob w) obs_term)) = Inr r
       \<and> factors_of r = map (\<lambda>(ob, w). op_map ob w) obs_term"
    by (rule reduce_matmul) (use assms in \<open>auto simp: factors_of_op_map\<close>)
  then show ?thesis unfolding eq .
qed

lemma collect_results_ok:
  "\<forall>t\<in>set ts. \<exists>r. g t = Inr r \<and> factors_of r = F t \<Longrightarrow>
     \<exists>rs. collect_results (map g ts) = Inr rs \<and> list_all2 (\<lambda>t r. factors_of r = F t) ts rs"
proof (induction ts)
  case Nil
  then show ?case by simp
next
  case (Cons t ts)
  then obtain rs where "collect_results (map g ts) = Inr rs"
    "list_all2 (\<lambda>t r. factors_of r = F t) ts rs" by auto
  moreover from Cons.prems obtain r where "g t = Inr r" "factors_of r = F t" by auto
  ultimately show ?case by simp
qed

lemma reexpand_factors:
  "list_all2 (\<lambda>t r. factors_of r = F t) ts rs \<Longrightarrow>
     reexpand (map fst ts) rs a b = sum_list (map (\<lambda>t. fst t * kron_entry (F t) a b) ts)"
  by (induction ts rs rule: list_all2_induct) (simp_all add: reexpand_def)

lemma decomposition_terms_nonempty:
  "t \<in> set (decomposition_terms n tm hide ws) \<Longrightarrow> snd t \<noteq> []"
  by (auto simp: decomposition_terms_def split: if_splits)

lemma pad_power_of_two_id:
  "nrows m = 2 ^ n \<Longrightarrow> ncols m = 2 ^ n \<Longrightarrow> pad_to_power_of_two m = Inr m"
  by (simp add: pad_to_power_of_two_def int_ceil_log2_pow2)

lemma decompose_hamiltonian:
  assumes "nrows m = 2 ^ n" and "ncols m = 2 ^ n"
    and "wire_order = None \<and> ws = [0..<n] \<or> wire_order = Some ws \<and> length ws = n"
  shows "\<exists>ops. pauli_decompose m hide wire_order False padding
            = Inr (HamiltonianResult
                     (map fst (decomposition_terms n (term_matrix n m) hide ws)) ops)
          \<and> list_all2 (\<lambda>t r. factors_of r = map (\<lambda>(ob, w). op_map ob w) (snd t))
               (decomposition_terms n (term_matrix n m) hide ws) ops"
proof -
  let ?terms = "decomposition_terms n (term_matrix n m) hide ws"
  let ?g = "\<lambda>(coeff, obs_term). reduce matmul (map (\<lambda>(ob, w). Inr (op_map ob w)) obs_term)"
  have "\<forall>t\<in>set ?terms. \<exists>r. ?g t = Inr r \<and> factors_of r = map (\<lambda>(ob, w). op_map ob w) (snd t)"
  proof
    fix t assume "t \<in> set ?terms"
    then have "snd t \<noteq> []" by (rule decomposition_terms_nonempty)
    from reduce_term_op [OF this]
    show "\<exists>r. ?g t = Inr r \<and> factors_of r = map (\<lambda>(ob, w). op_map ob w) (snd t)"
      by (simp add: case_prod_beta)
  qed
  from collect_results_ok [OF this] obtain ops where
    ops: "collect_results (map ?g ?terms) = Inr ops"
    "list_all2 (\<lambda>t r. factors_of r = map (\<lambda>(ob, w). op_map ob w) (snd t)) ?terms ops"
    by blast
  have wires: "(case wire_order of None \<Rightarrow> [0..<n] | Some ws \<Rightarrow> ws) = ws"
    and wlen: "\<not> (wire_order \<noteq> None \<and> length (the wire_order) \<noteq> n)"
    using assms(3) by auto
  have "pauli_decompose m hide wire_order False padding
      = Inr (HamiltonianResult (map fst ?terms) ops)"
    unfolding pauli_decompose_def
    using assms(1,2) wlen
    by (simp add: pad_power_of_two_id int_log2_pow2 wires ops(1) Let_def)
  with ops(2) show ?thesis by blast
qed

lemma reexpand_sum:
  assumes "0 < n" and "length ws = n" and "a < 2 ^ n" and "b < 2 ^ n"
    and "list_all2 (\<lambda>t r. factors_of r = map (\<lambda>(ob, w). op_map ob w) (snd t))
               (decomposition_terms n tm False ws) ops"
  shows "reexpand (map fst (decomposition_terms n tm False ws)) ops a b
     = (\<Sum>z<2 ^ n. if \<not> allclose_zero (tm z (a XOR b))
                    then tm z (a XOR b) * (wsign n z a * miphase n z (a XOR b)) else 0)"
proof -
  let ?P = "product_repeat ''IXYZ'' n"
  let ?Z = "\<lambda>rep. int_base2 (z_bits rep)"
  let ?X = "\<lambda>rep. int_base2 (x_bits rep)"
  let ?G = "\<lambda>z x. if \<not> allclose_zero (tm z x)
                   then tm z x * (if a XOR b = x then wsign n z a * miphase n z x else 0) else 0"
  have x: "a XOR b < 2 ^ n" using assms(3,4) by (rule xor_less_pow2)
  have "reexpand (map fst (decomposition_terms n tm False ws)) ops a b
      = sum_list (map (\<lambda>t. fst t * kron_entry (map (\<lambda>(ob, w). op_map ob w) (snd t)) a b)
          (decomposition_terms n tm False ws))"
    by (rule reexpand_factors [OF assms(5)])
  also have "\<dots> = sum_list (map (\<lambda>rep. if \<not> allclose_zero (tm (?Z rep) (?X rep))
         then tm (?Z rep) (?X rep)
              * kron_entry (map (\<lambda>(ob, w). op_map ob w) (observables_of False ws rep)) a b
         else 0) ?P)"
    unfolding decomposition_terms_all [OF assms(1,2)]
    by (simp add: comp_def sum_list_map_filter')
  also have "\<dots> = sum_list (map (\<lambda>rep. ?G (?Z rep) (?X rep)) ?P)"
  proof (rule arg_cong [where f = sum_list], rule map_cong [OF refl])
    fix rep assume r: "rep \<in> set ?P"
    then have len: "length rep = n" by (rule product_repeat_length)
    from r have sub: "set rep \<subseteq> set ''IXYZ''" by (rule product_repeat_set)
    have "kron_entry (map (\<lambda>(ob, w). op_map ob w) (observables_of False ws rep)) a b
        = (if a XOR b = ?X rep then wsign n (?Z rep) a * miphase n (?Z rep) (?X rep) else 0)"
      using kron_entry_closed [OF sub, of ws a b] assms(2,3,4) len by simp
    then show "(if \<not> allclose_zero (tm (?Z rep) (?X rep))
         then tm (?Z rep) (?X rep)
              * kron_entry (map (\<lambda>(ob, w). op_map ob w) (observables_of False ws rep)) a b
         else 0) = ?G (?Z rep) (?X rep)" by simp
  qed
  also have "\<dots> = (\<Sum>z<2 ^ n. \<Sum>x<2 ^ n. ?G z x)"
    by (rule sum_list_product_repeat)
  also have "\<dots> = (\<Sum>z<2 ^ n. if \<not> allclose_zero (tm z (a XOR b))
                    then tm z (a XOR b) * (wsign n z a * miphase n z (a XOR b)) else 0)"
  proof (rule sum.cong [OF refl])
    fix z
    have "(\<Sum>x<2 ^ n. ?G z x)
        = (\<Sum>x<2 ^ n. if a XOR b = x then ?G z (a XOR b) else 0)"
      by (rule sum.cong) auto
    also have "\<dots> = ?G z (a XOR b)" using x by simp
    finally show "(\<Sum>x<2 ^ n. ?G z x) = (if \<not> allclose_zero (tm z (a XOR b))
                    then tm z (a XOR b) * (wsign n z a * miphase n z (a XOR b)) else 0)"
      by simp
  qed
  finally show ?thesis .
qed

lemma reexpand_error:
  assumes "0 < n" and "nrows m = 2 ^ n" and "length ws = n" and "a < 2 ^ n" and "b < 2 ^ n"
    and "list_all2 (\<lambda>t r. factors_of r = map (\<lambda>(ob, w). op_map ob w) (snd t))
               (decomposition_terms n (term_matrix n m) False ws) ops"
  shows "entry m a b - reexpand (map fst (decomposition_terms n (term_matrix n m) False ws)) ops a b
     = (\<Sum>z<2 ^ n. if allclose_zero (term_matrix n m z (a XOR b))
                    then term_matrix n m z (a XOR b) * (wsign n z a * miphase n z (a XOR b))
                    else 0)"
proof -
  let ?c = "\<lambda>z. term_matrix n m z (a XOR b) * (wsign n z a * miphase n z (a XOR b))"
  let ?k = "\<lambda>z. allclose_zero (term_matrix n m z (a XOR b))"
  have "entry m a b = (\<Sum>z<2 ^ n. ?c z)"
    by (rule pauli_sum_roundtrip [OF assms(2,4,5), symmetric])
  moreover have "reexpand (map fst (decomposition_terms n (term_matrix n m) False ws)) ops a b
      = (\<Sum>z<2 ^ n. if \<not> ?k z then ?c z else 0)"
    by (rule reexpand_sum [OF assms(1,3,4,5,6)])
  ultimately have "entry m a b
        - reexpand (map fst (decomposition_terms n (term_matrix n m) False ws)) ops a b
      = (\<Sum>z<2 ^ n. ?c z - (if \<not> ?k z then ?c z else 0))"
    by (simp add: sum_subtractf)
  also have "\<dots> = (\<Sum>z<2 ^ n. if ?k z then ?c z else 0)"
    by (rule sum.cong) auto
  finally show ?thesis .
qed

lemma reexpand_close:
  assumes "0 < n" and "nrows m = 2 ^ n" and "length ws = n" and "a < 2 ^ n" and "b < 2 ^ n"
    and "list_all2 (\<lambda>t r. factors_of r = map (\<lambda>(ob, w). op_map ob w) (snd t))
               (decomposition_terms n (term_matrix n m) False ws) ops"
  shows "cmod (reexpand (map fst (decomposition_terms n (term_matrix n m) False ws)) ops a b
               - entry m a b) \<le> 2 ^ n * atol"
proof -
  let ?c = "\<lambda>z. term_matrix n m z (a XOR b) * (wsign n z a * miphase n z (a XOR b))"
  let ?k = "\<lambda>z. allclose_zero (term_matrix n m z (a XOR b))"
  have "cmod (reexpand (map fst (decomposition_terms n (term_matrix n m) False ws)) ops a b
               - entry m a b)
      = cmod (\<Sum>z<2 ^ n. if ?k z then ?c z else 0)"
    unfolding reexpand_error [OF assms, symmetric] by (rule norm_minus_commute)
  also have "\<dots> \<le> (\<Sum>z<(2::nat) ^ n. cmod (if ?k z then ?c z else 0))"
    by (rule norm_sum)
  also have "\<dots> \<le> (\<Sum>z<(2::nat) ^ n. atol)"
  proof (rule sum_mono)
    fix z
    show "cmod (if ?k z then ?c z else 0) \<le> atol"
      by (auto simp: norm_mult norm_wsign norm_miphase allclose_zero_def atol_def)
  qed
  also have "\<dots> = 2 ^ n * atol" by simp
  finally show ?thesis .
qed

lemma reexpand_exact:
  assumes "0 < n" and "nrows m = 2 ^ n" and "length ws = n" and "a < 2 ^ n" and "b < 2 ^ n"
    and "list_all2 (\<lambda>t r. factors_of r = map (\<lambda>(ob, w). op_map ob w) (snd t))
               (decomposition_terms n (term_matrix n m) False ws) ops"
    and "\<forall>z<2 ^ n. \<forall>x<2 ^ n. term_matrix n m z x = 0 \<or> \<not> allclose_zero (term_matrix n m z x)"
  shows "reexpand (map fst (decomposition_terms n (term_matrix n m) False ws)) ops a b
           = entry m a b"
proof -
  have x: "a XOR b < 2 ^ n" using assms(4,5) by (rule xor_less_pow2)
  have "(\<Sum>z<2 ^ n. if allclose_zero (term_matrix n m z (a XOR b))
                    then term_matrix n m z (a XOR b) * (wsign n z a * miphase n z (a XOR b))
                    else 0) = (\<Sum>z<(2::nat) ^ n. 0)"
  proof (rule sum.cong [OF refl])
    fix z assume "z \<in> {..<(2::nat) ^ n}"
    then have "z < 2 ^ n" by simp
    with assms(7) x have "term_matrix n m z (a XOR b) = 0
        \<or> \<not> allclose_zero (term_matrix n m z (a XOR b))" by blast
    then show "(if allclose_zero (term_matrix n m z (a XOR b))
                    then term_matrix n m z (a XOR b) * (wsign n z a * miphase n z (a XOR b))
                    else 0) = 0" by auto
  qed
  with reexpand_error [OF assms(1-6)] show ?thesis by simp
qed

lemma floor_log2_one: "floor_log2 (Suc 0) = 0"
  by (simp add: floor_log2.simps)

lemma decomposition_terms_zero: "decomposition_terms 0 t hide ws = []"
  by (simp add: decomposition_terms_def observables_of_def)

lemma three_not_power_of_two: "(3::nat) \<noteq> 2 ^ n"
proof (cases n)
  case 0
  then show ?thesis by simp
next
  case (Suc k)
  then have "even ((2::nat) ^ n)" by simp
  moreover have "odd (3::nat)" by simp
  ultimately show ?thesis by metis
qed

lemma pauli_decompose_pauli_z:
  "pauli_decompose \<lparr>nrows = 2, ncols = 2, entry = (\<lambda>r c. if r = c then (if r = 0 then 1 else - 1) else 0)\<rparr>
    False None False False = Inr (HamiltonianResult [1] [Operator None (PauliZ 0)])"
proof -
  let ?m = "\<lparr>nrows = 2, ncols = 2, entry = (\<lambda>r c. if r = c then (if r = 0 then 1 else - 1) else (0::complex))\<rparr>"
  have tm: "term_matrix 1 ?m z x
      = iphase 1 z x * (\<Sum>s<2 ^ 1. wsign 1 z s * entry ?m s (x XOR s)) / 2 ^ 1"
    if "z < 2" "x < 2" for z x
    using term_matrix_closed [of ?m 1 z x] that by simp
  have t00: "term_matrix (Suc 0) ?m 0 0 = 0"
    using tm [of 0 0] by (simp add: iphase_def wsign_def sum_lessThan_two bit_0)
  have t01: "term_matrix (Suc 0) ?m 0 (Suc 0) = 0"
    using tm [of 0 1] by (simp add: iphase_def wsign_def sum_lessThan_two bit_0)
  have t10: "term_matrix (Suc 0) ?m (Suc 0) 0 = 1"
    using tm [of 1 0] by (simp add: iphase_def wsign_def sum_lessThan_two bit_0)
  have t11: "term_matrix (Suc 0) ?m (Suc 0) (Suc 0) = 0"
    using tm [of 1 1] by (simp add: iphase_def wsign_def sum_lessThan_two bit_0)
  have terms: "decomposition_terms (Suc 0) (term_matrix (Suc 0) ?m) False [0] = [(1, [(CHR ''Z'', 0)])]"
    by (simp add: decomposition_terms_def z_bits_def x_bits_def int_base2_def
        t00 t01 t10 t11 allclose_zero_def atol_def observables_of_def)
  have "int_log2 2 = Inr 1"
    using int_log2_pow2 [of 1] by simp
  then show ?thesis
    by (simp add: pauli_decompose_def terms op_map_def upt_rec)
qed

lemma next_power_of_two:
  assumes "0 < k" and "\<forall>n. k \<noteq> 2 ^ n"
  shows "int_ceil_log2 k = Inr (Suc (floor_log2 (k - 1)))
       \<and> k < 2 ^ Suc (floor_log2 (k - 1)) \<and> 2 ^ Suc (floor_log2 (k - 1)) < 2 * k"
proof -
  from assms(2) have "k \<noteq> 2 ^ 0" by blast
  with assms(1) have k2: "2 \<le> k" by simp
  then have "0 < k - 1" by simp
  from floor_log2_bounds [OF this] have
    b: "2 ^ floor_log2 (k - 1) \<le> k - 1" "k - 1 < 2 ^ Suc (floor_log2 (k - 1))" by simp_all
  from b(2) have "k \<le> 2 ^ Suc (floor_log2 (k - 1))" by simp
  moreover from assms(2) have "k \<noteq> 2 ^ Suc (floor_log2 (k - 1))" by blast
  ultimately have "k < 2 ^ Suc (floor_log2 (k - 1))" by simp
  moreover from b(1) k2 have "2 ^ Suc (floor_log2 (k - 1)) < 2 * k" by simp
  moreover from k2 have "int_ceil_log2 k = Inr (Suc (floor_log2 (k - 1)))"
    by (simp add: int_ceil_log2_def)
  ultimately show ?thesis by blast
qed

lemma pad_square:
  assumes "nrows m = k" and "ncols m = k" and "int_ceil_log2 k = Inr q" and "k < 2 ^ q"
  shows "pad_to_power_of_two m = Inr (pad_constant m (2 ^ q - k) (2 ^ q - k))"
proof -
  have "int k - 2 ^ q = - int (2 ^ q - k)"
    using assms(4) by (simp add: of_nat_diff)
  then have "nat \<bar>int k - 2 ^ q\<bar> = 2 ^ q - k"
    by simp
  then show ?thesis
    using assms by (simp add: pad_to_power_of_two_def)
qed

lemma floor_log2_two: "floor_log2 2 = 1"
  using floor_log2_pow2 [of 1] by simp

text \<open>
  The round trip of the algorithm in exact arithmetic: with the rounding of the complex128
  operations left out, for every complex matrix \<open>M\<close> of size \<open>2^n x 2^n\<close> with
  \<open>n \<ge> 1\<close>, \<^verbatim>\<open>pauli_decompose(M)\<close> returns a weighted sum of Pauli terms whose
  re-expansion differs from \<open>M\<close>, in every entry, by at most \<open>2^n\<close> times the tolerance
  below which coefficients are dropped, and equals \<open>M\<close> when no non-zero coefficient is
  within that tolerance of zero. This is a property of the transform, not of its
  floating-point execution.
\<close>

lemma pauli_decompose_roundtrip_exact:
  assumes "0 < n" and "nrows m = 2 ^ n" and "ncols m = 2 ^ n"
  shows "\<exists>coeffs ops.
           pauli_decompose m False None False False = Inr (HamiltonianResult coeffs ops)
         \<and> (\<forall>a<2 ^ n. \<forall>b<2 ^ n. cmod (reexpand coeffs ops a b - entry m a b) \<le> 2 ^ n * atol)
         \<and> ((\<forall>z<2 ^ n. \<forall>x<2 ^ n.
                term_matrix n m z x = 0 \<or> \<not> allclose_zero (term_matrix n m z x))
              \<longrightarrow> (\<forall>a<2 ^ n. \<forall>b<2 ^ n. reexpand coeffs ops a b = entry m a b))"
proof -
  let ?terms = "decomposition_terms n (term_matrix n m) False [0..<n]"
  from decompose_hamiltonian [OF assms(2,3), of None "[0..<n]" False False]
  obtain ops where
    res: "pauli_decompose m False None False False = Inr (HamiltonianResult (map fst ?terms) ops)"
    and fac: "list_all2 (\<lambda>t r. factors_of r = map (\<lambda>(ob, w). op_map ob w) (snd t)) ?terms ops"
    by auto
  have len: "length [0..<n] = n" by simp
  have "\<forall>a<2 ^ n. \<forall>b<2 ^ n. cmod (reexpand (map fst ?terms) ops a b - entry m a b) \<le> 2 ^ n * atol"
    using reexpand_close [OF assms(1,2) len _ _ fac] by blast
  moreover have "(\<forall>z<2 ^ n. \<forall>x<2 ^ n.
                term_matrix n m z x = 0 \<or> \<not> allclose_zero (term_matrix n m z x))
              \<longrightarrow> (\<forall>a<2 ^ n. \<forall>b<2 ^ n. reexpand (map fst ?terms) ops a b = entry m a b)"
    using reexpand_exact [OF assms(1,2) len _ _ fac] by blast
  ultimately show ?thesis using res by blast
qed

lemma pauli_decompose_roundtrip_exact_example:
  "pauli_decompose
      \<lparr>nrows = 2, ncols = 2, entry = (\<lambda>r c. if r = c then (if r = 0 then 1 else - 1) else 0)\<rparr>
      False None False False = Inr (HamiltonianResult [1] [Operator None (PauliZ 0)])
   \<and> cmod (reexpand [1] [Operator None (PauliZ 0)] 1 1
            - entry \<lparr>nrows = 2, ncols = 2,
                     entry = (\<lambda>r c. if r = c then (if r = 0 then 1 else - 1) else 0)\<rparr> 1 1)
       \<le> 2 ^ 1 * atol
   \<and> reexpand [1] [Operator None (PauliZ 0)] 1 1 = - 1"
proof -
  let ?m = "\<lparr>nrows = 2, ncols = 2, entry = (\<lambda>r c. if r = c then (if r = 0 then 1 else - 1) else (0::complex))\<rparr>"
  have h1: "0 < (1::nat)" by simp
  have h2: "nrows ?m = 2 ^ 1" by simp
  have h3: "ncols ?m = 2 ^ 1" by simp
  from pauli_decompose_roundtrip_exact [OF h1 h2 h3] obtain coeffs ops where
    r: "pauli_decompose ?m False None False False = Inr (HamiltonianResult coeffs ops)"
    and c: "\<forall>a<2 ^ 1. \<forall>b<2 ^ 1. cmod (reexpand coeffs ops a b - entry ?m a b) \<le> 2 ^ 1 * atol"
    by blast
  from r have co: "coeffs = [1]" "ops = [Operator None (PauliZ 0)]"
    by (simp_all add: pauli_decompose_pauli_z)
  have "cmod (reexpand coeffs ops 1 1 - entry ?m 1 1) \<le> 2 ^ 1 * atol"
    by (rule c [rule_format]) simp_all
  then have "cmod (reexpand [1] [Operator None (PauliZ 0)] 1 1 - entry ?m 1 1) \<le> 2 ^ 1 * atol"
    unfolding co .
  moreover have "reexpand [1] [Operator None (PauliZ 0)] 1 1 = - 1"
    by (simp add: reexpand_def factors_of_def pauli_entry_def)
  ultimately show ?thesis using pauli_decompose_pauli_z by blast
qed

text \<open>
  Claim C5 at the empty matrix: a 0x0 matrix is square and its side is not a power of
  two, but \<^verbatim>\<open>pauli_decompose\<close> without padding does not fail with the power-of-two
  dimension error: \<^verbatim>\<open>int(log2(0))\<close> on line 118 raises \<^verbatim>\<open>OverflowError\<close> before the
  comparison of lines 119-120 is made.
\<close>

theorem pauli_decompose_empty_matrix_overflow:
  "pauli_decompose \<lparr>nrows = 0, ncols = 0, entry = (\<lambda>r c. 0)\<rparr> False None False False
     = Inl OverflowError
   \<and> pauli_decompose \<lparr>nrows = 0, ncols = 0, entry = (\<lambda>r c. 0)\<rparr> False None False False
     \<noteq> Inl (DimensionNotPowerOf2 (0, 0))"
  by (simp add: pauli_decompose_def int_log2_def)

text \<open>
  Every other input reaches the checks: without padding, a non-square matrix fails with
  the "matrix should be square" error, and a square matrix whose side is positive and not
  a power of two fails with the power-of-two dimension error.
\<close>

lemma pauli_decompose_dimension_errors:
  "(nrows m \<noteq> ncols m \<longrightarrow>
      pauli_decompose m hide_identity wire_order pauli False
        = Inl (MatrixNotSquare (nrows m, ncols m)))
   \<and> (nrows m = ncols m \<and> 0 < nrows m \<and> (\<forall>n. nrows m \<noteq> 2 ^ n) \<longrightarrow>
      pauli_decompose m hide_identity wire_order pauli False
        = Inl (DimensionNotPowerOf2 (nrows m, ncols m)))"
  by (auto simp: pauli_decompose_def int_log2_def)

lemma pauli_decompose_dimension_errors_example:
  "pauli_decompose \<lparr>nrows = 3, ncols = 3, entry = (\<lambda>r c. if r = c then 1 else 0)\<rparr>
      False None False False = Inl (DimensionNotPowerOf2 (3, 3))
   \<and> pauli_decompose \<lparr>nrows = 2, ncols = 3, entry = (\<lambda>r c. if r = c then 1 else 0)\<rparr>
      False None False False = Inl (MatrixNotSquare (2, 3))"
  using pauli_decompose_dimension_errors
     [of "\<lparr>nrows = 3, ncols = 3, entry = (\<lambda>r c. if r = c then 1 else 0)\<rparr>" False None False]
    pauli_decompose_dimension_errors
     [of "\<lparr>nrows = 2, ncols = 3, entry = (\<lambda>r c. if r = c then 1 else 0)\<rparr>" False None False]
    three_not_power_of_two
  by simp

text \<open>
  Claim C6 at the empty matrix: a 0x0 matrix is square and its side is not a power of
  two, but \<^verbatim>\<open>pauli_decompose\<close> with \<^verbatim>\<open>padding=True\<close> neither pads nor decomposes it:
  \<^verbatim>\<open>int(ceil(log2(0)))\<close> on line 106 raises \<^verbatim>\<open>OverflowError\<close>.
\<close>

theorem pauli_decompose_padding_empty_matrix_overflow:
  "pauli_decompose \<lparr>nrows = 0, ncols = 0, entry = (\<lambda>r c. 0)\<rparr> False None False True
     = Inl OverflowError"
  by (simp add: pauli_decompose_def pad_to_power_of_two_def int_ceil_log2_def)

text \<open>
  Every square matrix \<open>M\<close> whose side \<open>k\<close> is positive and not a power of two is
  padded with zeros to the side \<open>2^q\<close>, the next power of two (\<open>k < 2^q < 2 k\<close>), and
  the decomposition returned is that of the padded matrix. In exact arithmetic its
  re-expansion differs from the zero-padded matrix, in every entry, by at most \<open>2^q\<close>
  times the tolerance, and equals it when no non-zero coefficient is within the tolerance
  of zero.
\<close>

lemma pauli_decompose_padding_exact:
  assumes "nrows m = k" and "ncols m = k" and "0 < k" and "\<forall>n. k \<noteq> 2 ^ n"
  shows "\<exists>q coeffs ops.
           int_ceil_log2 k = Inr q \<and> k < 2 ^ q \<and> 2 ^ q < 2 * k
         \<and> pauli_decompose m False None False True
             = pauli_decompose (pad_constant m (2 ^ q - k) (2 ^ q - k)) False None False False
         \<and> pauli_decompose m False None False True = Inr (HamiltonianResult coeffs ops)
         \<and> (\<forall>a<2 ^ q. \<forall>b<2 ^ q.
               cmod (reexpand coeffs ops a b - (if a < k \<and> b < k then entry m a b else 0))
                 \<le> 2 ^ q * atol)
         \<and> ((\<forall>z<2 ^ q. \<forall>x<2 ^ q.
                term_matrix q (pad_constant m (2 ^ q - k) (2 ^ q - k)) z x = 0
                \<or> \<not> allclose_zero (term_matrix q (pad_constant m (2 ^ q - k) (2 ^ q - k)) z x))
              \<longrightarrow> (\<forall>a<2 ^ q. \<forall>b<2 ^ q.
                     reexpand coeffs ops a b = (if a < k \<and> b < k then entry m a b else 0)))"
proof -
  define q where "q = Suc (floor_log2 (k - 1))"
  from next_power_of_two [OF assms(3,4)] have
    q: "int_ceil_log2 k = Inr q" "k < 2 ^ q" "2 ^ q < 2 * k"
    unfolding q_def by simp_all
  define p where "p = pad_constant m (2 ^ q - k) (2 ^ q - k)"
  have pad: "pad_to_power_of_two m = Inr p"
    unfolding p_def by (rule pad_square [OF assms(1,2) q(1,2)])
  have same: "pauli_decompose m False None False True = pauli_decompose p False None False False"
    by (simp add: pauli_decompose_def pad)
  have rows: "nrows p = 2 ^ q" and cols: "ncols p = 2 ^ q"
    using assms(1,2) q(2) by (simp_all add: p_def pad_constant_def)
  have ent: "entry p a b = (if a < k \<and> b < k then entry m a b else 0)" for a b
    using assms(1,2) by (simp add: p_def pad_constant_def)
  have q0: "0 < q" by (simp add: q_def)
  let ?terms = "decomposition_terms q (term_matrix q p) False [0..<q]"
  from decompose_hamiltonian [OF rows cols, of None "[0..<q]" False False]
  obtain ops where
    res: "pauli_decompose p False None False False = Inr (HamiltonianResult (map fst ?terms) ops)"
    and fac: "list_all2 (\<lambda>t r. factors_of r = map (\<lambda>(ob, w). op_map ob w) (snd t)) ?terms ops"
    by auto
  have len: "length [0..<q] = q" by simp
  have close: "\<forall>a<2 ^ q. \<forall>b<2 ^ q.
       cmod (reexpand (map fst ?terms) ops a b - (if a < k \<and> b < k then entry m a b else 0))
         \<le> 2 ^ q * atol"
    using reexpand_close [OF q0 rows len _ _ fac] unfolding ent by blast
  have exact: "(\<forall>z<2 ^ q. \<forall>x<2 ^ q.
                term_matrix q p z x = 0 \<or> \<not> allclose_zero (term_matrix q p z x))
              \<longrightarrow> (\<forall>a<2 ^ q. \<forall>b<2 ^ q.
                     reexpand (map fst ?terms) ops a b
                       = (if a < k \<and> b < k then entry m a b else 0))"
    using reexpand_exact [OF q0 rows len _ _ fac] unfolding ent by blast
  have "int_ceil_log2 k = Inr q \<and> k < 2 ^ q \<and> 2 ^ q < 2 * k
         \<and> pauli_decompose m False None False True = pauli_decompose p False None False False
         \<and> pauli_decompose m False None False True = Inr (HamiltonianResult (map fst ?terms) ops)
         \<and> (\<forall>a<2 ^ q. \<forall>b<2 ^ q.
               cmod (reexpand (map fst ?terms) ops a b
                     - (if a < k \<and> b < k then entry m a b else 0)) \<le> 2 ^ q * atol)
         \<and> ((\<forall>z<2 ^ q. \<forall>x<2 ^ q.
                term_matrix q p z x = 0 \<or> \<not> allclose_zero (term_matrix q p z x))
              \<longrightarrow> (\<forall>a<2 ^ q. \<forall>b<2 ^ q.
                     reexpand (map fst ?terms) ops a b
                       = (if a < k \<and> b < k then entry m a b else 0)))"
    using q same res close exact by (simp only: simp_thms)
  then show ?thesis unfolding p_def by blast
qed

lemma pauli_decompose_padding_exact_example:
  "nrows \<lparr>nrows = 3, ncols = 3, entry = (\<lambda>r c. if r = c then 1 else 0)\<rparr> = 3
   \<and> (\<forall>n. (3::nat) \<noteq> 2 ^ n)
   \<and> pauli_decompose \<lparr>nrows = 3, ncols = 3, entry = (\<lambda>r c. if r = c then 1 else 0)\<rparr>
        False None False True
      = pauli_decompose
          (pad_constant \<lparr>nrows = 3, ncols = 3, entry = (\<lambda>r c. if r = c then 1 else 0)\<rparr> 1 1)
          False None False False
   \<and> (\<exists>coeffs ops.
         pauli_decompose \<lparr>nrows = 3, ncols = 3, entry = (\<lambda>r c. if r = c then 1 else 0)\<rparr>
           False None False True = Inr (HamiltonianResult coeffs ops)
       \<and> cmod (reexpand coeffs ops 2 2 - 1) \<le> 4 * atol
       \<and> cmod (reexpand coeffs ops 3 3 - 0) \<le> 4 * atol)"
proof -
  let ?m = "\<lparr>nrows = 3, ncols = 3, entry = (\<lambda>r c. if r = c then 1 else (0::complex))\<rparr>"
  have h1: "nrows ?m = 3" and h2: "ncols ?m = 3" and h3: "0 < (3::nat)" by simp_all
  have h4: "\<forall>n. (3::nat) \<noteq> 2 ^ n" using three_not_power_of_two by blast
  have c: "int_ceil_log2 3 = Inr 2" by (simp add: int_ceil_log2_def floor_log2_two)
  from pauli_decompose_padding_exact [OF h1 h2 h3 h4] obtain q coeffs ops where
    q: "int_ceil_log2 3 = Inr q"
    and same: "pauli_decompose ?m False None False True
             = pauli_decompose (pad_constant ?m (2 ^ q - 3) (2 ^ q - 3)) False None False False"
    and res: "pauli_decompose ?m False None False True = Inr (HamiltonianResult coeffs ops)"
    and close: "\<forall>a<2 ^ q. \<forall>b<2 ^ q.
               cmod (reexpand coeffs ops a b - (if a < 3 \<and> b < 3 then entry ?m a b else 0))
                 \<le> 2 ^ q * atol"
    by blast
  from q c have q2: "q = 2" by simp
  have "cmod (reexpand coeffs ops 2 2 - (if (2::nat) < 3 \<and> (2::nat) < 3 then entry ?m 2 2 else 0))
      \<le> 2 ^ q * atol"
    by (rule close [rule_format]) (simp_all add: q2)
  then have a: "cmod (reexpand coeffs ops 2 2 - 1) \<le> 4 * atol" by (simp add: q2)
  have "cmod (reexpand coeffs ops 3 3 - (if (3::nat) < 3 \<and> (3::nat) < 3 then entry ?m 3 3 else 0))
      \<le> 2 ^ q * atol"
    by (rule close [rule_format]) (simp_all add: q2)
  then have b: "cmod (reexpand coeffs ops 3 3 - 0) \<le> 4 * atol" by (simp add: q2)
  from same have s: "pauli_decompose ?m False None False True
             = pauli_decompose (pad_constant ?m 1 1) False None False False"
    by (simp add: q2)
  from h1 h4 s res a b show ?thesis by blast
qed

text \<open>
  Claim C10. For every 1x1 matrix \<open>[[c]]\<close> with \<open>c\<close> non-zero, \<^verbatim>\<open>pauli_decompose\<close>
  returns a decomposition without terms (whatever \<^verbatim>\<open>hide_identity\<close>, \<^verbatim>\<open>pauli\<close> and
  \<^verbatim>\<open>padding\<close> are, the wire order absent or empty): the identity coefficient on zero
  qubits has no observables and is not appended, so the re-expansion is 0 and not \<open>c\<close>.
\<close>

theorem pauli_decompose_one_by_one:
  assumes "nrows m = 1" and "ncols m = 1" and "entry m 0 0 \<noteq> 0"
    and "wire_order = None \<or> wire_order = Some []"
  shows "pauli_decompose m hide_identity wire_order pauli padding
           = Inr (if pauli then PauliSentenceResult [] else HamiltonianResult [] [])
         \<and> reexpand [] [] 0 0 = 0 \<and> reexpand [] [] 0 0 \<noteq> entry m 0 0"
  using assms
  by (auto simp: pauli_decompose_def pad_to_power_of_two_def int_ceil_log2_def int_log2_def
      floor_log2_one decomposition_terms_zero reexpand_def)

theorem pauli_decompose_one_by_one_witness:
  "pauli_decompose \<lparr>nrows = 1, ncols = 1, entry = (\<lambda>r c. 5)\<rparr> False None False False
     = Inr (HamiltonianResult [] [])
   \<and> pauli_decompose \<lparr>nrows = 1, ncols = 1, entry = (\<lambda>r c. 5)\<rparr> False None True False
     = Inr (PauliSentenceResult [])
   \<and> reexpand [] [] 0 0 = 0"
  using pauli_decompose_one_by_one
     [of "\<lparr>nrows = 1, ncols = 1, entry = (\<lambda>r c. 5)\<rparr>" None False False False]
    pauli_decompose_one_by_one
     [of "\<lparr>nrows = 1, ncols = 1, entry = (\<lambda>r c. 5)\<rparr>" None False True False]
  by simp

end
